(* ===== verification/Prelude.thy ===== *)
theory Prelude
  imports Main "HOL-Library.Word"
begin

text \<open>
  Shared vocabulary of the development: the machine type \<open>usize\<close> of the Rust
  program, the failure modes a Rust program can end in (panic, abort through
  \<open>handle_alloc_error\<close>, undefined behaviour), the named fact collections the
  component theories fill, and generic lemmas on lists, options and 64-bit words
  that the component proofs share.
\<close>

section \<open>Machine types\<close>

type_synonym usize = "64 word"

text \<open>Addresses are abstract: only their identity and the null value 0 matter.\<close>

type_synonym addr = nat

definition isize_max :: usize where
  "isize_max = 2 ^ 63 - 1"

text \<open>
  Arithmetic of a debug build: \<open>a * b\<close> and \<open>a + b\<close> on \<open>usize\<close> panic on
  overflow; \<open>None\<close> here is that panic.
\<close>

definition checked_mul :: "usize \<Rightarrow> usize \<Rightarrow> usize option" where
  "checked_mul a b = (if unat a * unat b < 2 ^ 64 then Some (a * b) else None)"

definition checked_add :: "usize \<Rightarrow> usize \<Rightarrow> usize option" where
  "checked_add a b = (if unat a + unat b < 2 ^ 64 then Some (a + b) else None)"

section \<open>Failure modes\<close>

text \<open>
  A Rust program that does not return normally either panics (\<open>unwrap\<close> on an
  \<open>Err\<close>, arithmetic overflow in a debug build), aborts (\<open>handle_alloc_error\<close>),
  or has undefined behaviour (a broken precondition of an \<open>unsafe\<close> primitive).
  Undefined behaviour is recorded as a value, so that a theorem can say it never
  happens.
\<close>

datatype panic_reason = LayoutErr | MulOverflow | AddOverflow | BorrowErr | BorrowMutErr

datatype ub_reason =
    ZeroSizeAlloc
  | ZeroSizeRealloc
  | InvalidRealloc
  | InvalidDealloc
  | InvalidAccess

datatype error =
    Panic panic_reason
  | AllocAbort usize
  | UB ub_reason

type_synonym 'a result = "error + 'a"

fun is_ub :: "error \<Rightarrow> bool" where
  "is_ub (UB _) = True"
| "is_ub _ = False"

section \<open>Fact collections\<close>

named_theorems heap_simps "defining equations of the arithmetic, layout, allocator and pointer primitives, unfolded to evaluate concrete runs"
named_theorems vec_simps "defining equations of the vector operations, unfolded to evaluate concrete runs"

declare isize_max_def [heap_simps] checked_mul_def [heap_simps] checked_add_def [heap_simps]

section \<open>Generic lemmas\<close>

subsection \<open>Lists of slots\<close>

lemma take_append_replicate_prefix [simp]:
  "n \<le> length xs \<Longrightarrow> take n (xs @ replicate k a) = take n xs"
  by simp

lemma list_all_replicate_iff [simp]:
  "list_all P (replicate k a) \<longleftrightarrow> k = 0 \<or> P a"
  by (induction k) auto

lemma take_replicate_grow:
  "length xs \<le> k \<Longrightarrow> take k xs @ replicate (k - length xs) a = xs @ replicate (k - length xs) a"
  by simp

subsection \<open>64-bit words\<close>

lemma unat_isize_max [simp]: "unat isize_max = 2 ^ 63 - 1"
  by (simp add: isize_max_def)

lemma unat_double_no_wrap:
  fixes c :: usize
  assumes "unat c < 2 ^ 63"
  shows "unat (c * 2) = 2 * unat c"
proof -
  have "unat c * unat (2::usize) < 2 ^ 64"
    using assms by simp
  then show ?thesis
    by (simp add: unat_mult_lem [THEN iffD1])
qed

lemma unat_mult_no_wrap:
  fixes a b :: usize
  assumes "unat a * unat b < 2 ^ 64"
  shows "unat (a * b) = unat a * unat b"
  using assms by (simp add: unat_mult_lem [THEN iffD1])

lemma word_suc_no_wrap:
  fixes n c :: usize
  assumes "n < c"
  shows "unat (n + 1) = Suc (unat n)"
  using assms by unat_arith

end
