(* ===== verification/Layout.thy ===== *)
theory Layout
  imports Prelude
begin

text \<open>
  The element type \<open>T\<close> as the program sees it (its size and alignment, which are
  also those of \<open>MaybeUninit<T>\<close>), the \<open>Layout\<close> of a memory request, and
  \<open>Layout::array\<close> of the Rust core library, which \<open>Vector\<close> calls before each
  allocation and unwraps.  \<open>Layout::array\<close> is not under \<open>src/\<close>: it is modelled
  from the library's documented contract (the product must fit \<open>isize::MAX\<close>
  rounded down to the alignment).
\<close>

section \<open>Element types and layouts\<close>

record elem_ty =
  ty_size :: usize
  ty_align :: usize

record layout =
  lsize :: usize
  lalign :: usize

text \<open>What Rust guarantees of every type: a power-of-two alignment and a size that
  is a multiple of it.\<close>

definition ty_wf :: "elem_ty \<Rightarrow> bool" where
  "ty_wf t \<longleftrightarrow> ty_align t \<noteq> 0 \<and> ty_align t \<le> 2 ^ 63
     \<and> and (ty_align t) (ty_align t - 1) = 0 \<and> ty_size t mod ty_align t = 0"

text \<open>\<open>NonNull::dangling()\<close>: the address equal to the alignment, never allocated.\<close>

definition dangling :: "elem_ty \<Rightarrow> addr" where
  "dangling t = unat (ty_align t)"

section \<open>Layout::array\<close>

definition max_size_for_align :: "usize \<Rightarrow> usize" where
  "max_size_for_align a = isize_max - (a - 1)"

definition layout_array :: "elem_ty \<Rightarrow> usize \<Rightarrow> layout option" where
  "layout_array t n =
     (if ty_size t \<noteq> 0 \<and> n > max_size_for_align (ty_align t) div ty_size t then None
      else Some \<lparr>lsize = ty_size t * n, lalign = ty_align t\<rparr>)"

text \<open>
  The type invariant of \<open>Layout\<close> (core library): a non-zero power-of-two alignment,
  and a size that, rounded up to the alignment, does not exceed \<open>isize::MAX\<close>.
\<close>

definition layout_wf :: "layout \<Rightarrow> bool" where
  "layout_wf L \<longleftrightarrow> lalign L \<noteq> 0 \<and> and (lalign L) (lalign L - 1) = 0
     \<and> unat (lsize L) + (unat (lalign L) - 1) \<le> unat isize_max"

declare dangling_def [heap_simps] max_size_for_align_def [heap_simps] layout_array_def [heap_simps]

section \<open>Properties of Layout::array\<close>

lemma max_size_for_align_unat:
  "ty_wf t \<Longrightarrow> unat (max_size_for_align (ty_align t)) = 2 ^ 63 - unat (ty_align t)"
  unfolding ty_wf_def max_size_for_align_def isize_max_def
  by unat_arith

lemma layout_array_Some_iff:
  "layout_array t n \<noteq> None \<longleftrightarrow>
     ty_size t = 0 \<or> unat n \<le> unat (max_size_for_align (ty_align t)) div unat (ty_size t)"
  by (auto simp: layout_array_def word_less_nat_alt unat_div)

lemma layout_array_size:
  assumes "ty_wf t" "layout_array t n = Some L"
  shows "unat (lsize L) = unat (ty_size t) * unat n \<and> unat (lsize L) < 2 ^ 63 \<and> lalign L = ty_align t"
proof -
  from assms(2) have L: "L = \<lparr>lsize = ty_size t * n, lalign = ty_align t\<rparr>"
    by (auto simp: layout_array_def split: if_splits)
  have "unat (ty_size t) * unat n \<le> unat (max_size_for_align (ty_align t))"
  proof (cases "ty_size t = 0")
    case True then show ?thesis by simp
  next
    case False
    with assms(2) have "unat n \<le> unat (max_size_for_align (ty_align t)) div unat (ty_size t)"
      using layout_array_Some_iff by blast
    then show ?thesis using False
      by (metis mult.commute mult_le_mono1 le_trans times_div_less_eq_dividend)
  qed
  moreover have "unat (max_size_for_align (ty_align t)) < 2 ^ 63"
    using max_size_for_align_unat[OF assms(1)] assms(1) by (simp add: ty_wf_def) (unat_arith)
  ultimately show ?thesis using L by (simp add: unat_mult_no_wrap)
qed

lemma layout_array_count_bound:
  assumes "ty_wf t" "ty_size t \<noteq> 0" "layout_array t n = Some L"
  shows "unat n < 2 ^ 63"
proof -
  have "unat (ty_size t) * unat n < 2 ^ 63"
    using layout_array_size [OF assms(1,3)] by simp
  moreover have "1 \<le> unat (ty_size t)"
    using assms(2) by (simp add: Suc_leI unat_gt_0)
  then have "unat n \<le> unat (ty_size t) * unat n"
    by simp
  ultimately show ?thesis
    by linarith
qed

lemma layout_array_fits_iff:
  assumes wf: "ty_wf t" and nz: "ty_size t \<noteq> 0"
  shows "((\<exists>L. layout_array t n = Some L) \<longleftrightarrow> unat (ty_size t) * unat n \<le> 2 ^ 63 - unat (ty_align t))
         \<and> (\<forall>L. layout_array t n = Some L \<longrightarrow>
               unat (lsize L) = unat (ty_size t) * unat n \<and> unat (lsize L) < 2 ^ 63)"
proof -
  have s: "0 < unat (ty_size t)" using nz by (simp add: unat_gt_0)
  have "(\<exists>L. layout_array t n = Some L) \<longleftrightarrow> unat n \<le> (2 ^ 63 - unat (ty_align t)) div unat (ty_size t)"
    using layout_array_Some_iff [of t n] max_size_for_align_unat [OF wf] nz by auto
  also have "\<dots> \<longleftrightarrow> unat (ty_size t) * unat n \<le> 2 ^ 63 - unat (ty_align t)"
    using s by (simp add: less_eq_div_iff_mult_less_eq mult.commute)
  moreover have "0 < unat (ty_align t)"
    using wf by (simp add: ty_wf_def unat_gt_0)
  ultimately show ?thesis
    using layout_array_size [OF wf] by auto
qed

lemma layout_array_wf:
  assumes wf: "ty_wf t" and L: "layout_array t n = Some L"
  shows "layout_wf L \<and> unat (lsize L) mod unat (lalign L) = 0"
proof -
  note sz = layout_array_size [OF wf L]
  have a0: "0 < unat (ty_align t)" and a63: "unat (ty_align t) \<le> 2 ^ 63"
    using wf by (simp_all add: ty_wf_def unat_gt_0 word_le_nat_alt)
  have fit: "unat (lsize L) \<le> 2 ^ 63 - unat (ty_align t)"
  proof (cases "ty_size t = 0")
    case True
    then show ?thesis using sz by simp
  next
    case False
    then show ?thesis using layout_array_fits_iff [OF wf False, of n] L sz by auto
  qed
  have "unat (ty_size t) mod unat (ty_align t) = 0"
    using wf by (simp add: ty_wf_def unat_mod [symmetric])
  then have "unat (lsize L) mod unat (ty_align t) = 0"
    using sz by (simp add: mod_mult_left_eq [symmetric, of "unat (ty_size t)"])
  moreover have "layout_wf L"
    using wf sz fit a0 a63 by (auto simp: layout_wf_def ty_wf_def)
  ultimately show ?thesis using sz by simp
qed

end
