(* ===== verification/Memory.thy ===== *)
theory Memory
  imports Layout
begin

text \<open>
  The raw-memory primitives \<open>Vector\<close> calls: \<open>std::alloc::{alloc, realloc,
  dealloc}\<close>, \<open>ptr::write\<close> through \<open>ptr.add(i)\<close>, and \<open>ptr::drop_in_place\<close>.
  None of them is under \<open>src/\<close>; each is modelled from its documented contract,
  with every broken precondition an explicit \<open>UB\<close> value.  Memory is typed: a
  block allocated for a \<open>Layout::array::<MaybeUninit<T>>(n)\<close> request is a list of
  \<open>size / size_of T\<close> slots, each uninitialised or holding a value of \<open>T\<close>.
  The allocator places every new block at a fresh address and fails (returns
  null) when fewer bytes are available than requested; \<open>realloc\<close> always moves,
  which the contract allows.  The heap also records, in order, every value of
  \<open>T\<close> whose destructor has run, which is what the spec's drop-counting test
  observes.
\<close>

section \<open>Slots, blocks, heap\<close>

datatype 'a slot = Uninit | Init 'a

fun is_init :: "'a slot \<Rightarrow> bool" where
  "is_init (Init _) = True"
| "is_init Uninit = False"

fun init_val :: "'a slot \<Rightarrow> 'a" where
  "init_val (Init x) = x"

record 'a block =
  blk_layout :: layout
  blk_slots :: "'a slot list"

record 'a heap =
  blocks :: "addr \<rightharpoonup> 'a block"
  next_addr :: addr
  avail :: nat
  drop_log :: "'a list"

definition heap_wf :: "'a heap \<Rightarrow> bool" where
  "heap_wf h \<longleftrightarrow> 0 < next_addr h \<and> (\<forall>p \<in> dom (blocks h). p < next_addr h)"

definition new_block :: "elem_ty \<Rightarrow> layout \<Rightarrow> 'a block" where
  "new_block t L = \<lparr>blk_layout = L, blk_slots = replicate (unat (lsize L) div unat (ty_size t)) Uninit\<rparr>"

section \<open>std::alloc\<close>

text \<open>\<open>alloc(layout)\<close>: undefined for a zero-size layout; null when out of memory.\<close>

definition alloc :: "elem_ty \<Rightarrow> layout \<Rightarrow> 'a heap \<Rightarrow> (addr \<times> 'a heap) result" where
  "alloc t L h =
     (if lsize L = 0 then Inl (UB ZeroSizeAlloc)
      else if avail h < unat (lsize L) then Inr (0, h)
      else let p = next_addr h in
        Inr (p, h\<lparr>blocks := (blocks h)(p \<mapsto> new_block t L),
                  next_addr := p + unat (lsize L),
                  avail := avail h - unat (lsize L)\<rparr>))"

text \<open>
  \<open>realloc(ptr, layout, new_size)\<close>: undefined unless \<open>ptr\<close> is a live block allocated
  with \<open>layout\<close> and \<open>new_size\<close> is not zero; null when out of memory, the old block
  then untouched; otherwise the first \<open>min old new\<close> bytes move to the new block and
  the old block is gone.
\<close>

definition resize_slots :: "nat \<Rightarrow> 'a slot list \<Rightarrow> 'a slot list" where
  "resize_slots k ss = take k ss @ replicate (k - length ss) Uninit"

definition realloc :: "elem_ty \<Rightarrow> 'a heap \<Rightarrow> addr \<Rightarrow> layout \<Rightarrow> usize \<Rightarrow> (addr \<times> 'a heap) result" where
  "realloc t h p L n =
     (case blocks h p of
        None \<Rightarrow> Inl (UB InvalidRealloc)
      | Some b \<Rightarrow>
          if blk_layout b \<noteq> L then Inl (UB InvalidRealloc)
          else if n = 0 then Inl (UB ZeroSizeRealloc)
          else if avail h < unat n then Inr (0, h)
          else let q = next_addr h in
            Inr (q, h\<lparr>blocks := (blocks h)(p := None,
                        q \<mapsto> \<lparr>blk_layout = L\<lparr>lsize := n\<rparr>,
                              blk_slots = resize_slots (unat n div unat (ty_size t)) (blk_slots b)\<rparr>),
                      next_addr := q + unat n,
                      avail := avail h - unat n + unat (lsize L)\<rparr>))"

text \<open>\<open>dealloc(ptr, layout)\<close>: undefined unless \<open>ptr\<close> is a live block of that layout.\<close>

definition dealloc :: "'a heap \<Rightarrow> addr \<Rightarrow> layout \<Rightarrow> 'a heap result" where
  "dealloc h p L =
     (case blocks h p of
        None \<Rightarrow> Inl (UB InvalidDealloc)
      | Some b \<Rightarrow>
          if blk_layout b \<noteq> L then Inl (UB InvalidDealloc)
          else Inr (h\<lparr>blocks := (blocks h)(p := None), avail := avail h + unat (lsize L)\<rparr>))"

section \<open>core::ptr\<close>

text \<open>
  \<open>ptr.add(i).write(v)\<close>: the slot must lie inside a live block, except that a
  write of a zero-sized type is valid at any non-null aligned address.
\<close>

definition valid_slot :: "elem_ty \<Rightarrow> 'a heap \<Rightarrow> addr \<Rightarrow> nat \<Rightarrow> bool" where
  "valid_slot t h p i \<longleftrightarrow> ty_size t = 0 \<or>
     (case blocks h p of None \<Rightarrow> False | Some b \<Rightarrow> i < length (blk_slots b))"

definition write_slot :: "elem_ty \<Rightarrow> 'a heap \<Rightarrow> addr \<Rightarrow> nat \<Rightarrow> 'a slot \<Rightarrow> 'a heap result" where
  "write_slot t h p i s =
     (if \<not> valid_slot t h p i then Inl (UB InvalidAccess)
      else if ty_size t = 0 then Inr h
      else case blocks h p of
        None \<Rightarrow> Inr h
      | Some b \<Rightarrow> Inr (h\<lparr>blocks := (blocks h)(p \<mapsto> b\<lparr>blk_slots := (blk_slots b)[i := s]\<rparr>)\<rparr>))"

text \<open>
  \<open>ptr::drop_in_place::<MaybeUninit<T>>\<close>: \<open>MaybeUninit<T>\<close> has no drop glue, so the
  call runs no destructor; it only requires a valid pointer.
\<close>

definition drop_in_place_uninit :: "elem_ty \<Rightarrow> 'a heap \<Rightarrow> addr \<Rightarrow> nat \<Rightarrow> 'a heap result" where
  "drop_in_place_uninit t h p i = (if valid_slot t h p i then Inr h else Inl (UB InvalidAccess))"

text \<open>
  \<open>ptr::drop_in_place::<T>\<close> on an initialised slot: \<open>T\<close>'s destructor runs on the
  value (recorded in the log) and the slot no longer holds a live value.  Dropping an
  uninitialised slot reads uninitialised memory.
\<close>

definition drop_in_place_elem :: "elem_ty \<Rightarrow> 'a heap \<Rightarrow> addr \<Rightarrow> nat \<Rightarrow> 'a heap result" where
  "drop_in_place_elem t h p i =
     (case blocks h p of
        None \<Rightarrow> Inl (UB InvalidAccess)
      | Some b \<Rightarrow>
          if i < length (blk_slots b) \<and> is_init (blk_slots b ! i)
          then Inr (h\<lparr>blocks := (blocks h)(p \<mapsto> b\<lparr>blk_slots := (blk_slots b)[i := Uninit]\<rparr>),
                      drop_log := drop_log h @ [init_val (blk_slots b ! i)]\<rparr>)
          else Inl (UB InvalidAccess))"

declare new_block_def [heap_simps] alloc_def [heap_simps] resize_slots_def [heap_simps]
  realloc_def [heap_simps] dealloc_def [heap_simps] valid_slot_def [heap_simps]
  write_slot_def [heap_simps] drop_in_place_uninit_def [heap_simps]

section \<open>Properties of the primitives\<close>

lemma heap_wf_fresh [simp]: "heap_wf h \<Longrightarrow> blocks h (next_addr h) = None"
  by (auto simp: heap_wf_def)

lemma heap_wf_live_below: "heap_wf h \<Longrightarrow> blocks h p = Some b \<Longrightarrow> p < next_addr h"
  by (auto simp: heap_wf_def)

lemma alloc_null:
  "alloc t L h = Inr (0, h') \<Longrightarrow> heap_wf h \<Longrightarrow> h' = h"
  by (auto simp: alloc_def heap_wf_def dom_def unat_gt_0 Let_def split: if_splits)

lemma alloc_Inr_nonnull:
  assumes "heap_wf h" "alloc t L h = Inr (p, h')" "p \<noteq> 0"
  shows "p = next_addr h \<and> blocks h' = (blocks h)(p \<mapsto> new_block t L) \<and> heap_wf h'
         \<and> drop_log h' = drop_log h \<and> next_addr h < next_addr h'
         \<and> unat (lsize L) \<le> avail h \<and> avail h' = avail h - unat (lsize L)"
  using assms by (auto simp: alloc_def heap_wf_def dom_def unat_gt_0 Let_def split: if_splits) (metis trans_less_add1)

lemma alloc_Inr_iff:
  "(\<exists>r. alloc t L h = Inr r) \<longleftrightarrow> lsize L \<noteq> 0"
  by (simp add: alloc_def Let_def)

lemma alloc_nonnull_iff:
  "heap_wf h \<Longrightarrow> lsize L \<noteq> 0 \<Longrightarrow>
     (\<exists>h'. alloc t L h = Inr (0, h')) \<longleftrightarrow> avail h < unat (lsize L)"
  by (auto simp: alloc_def heap_wf_def Let_def)

lemma realloc_null:
  "realloc t h p L n = Inr (0, h') \<Longrightarrow> heap_wf h \<Longrightarrow> h' = h"
  by (auto simp: realloc_def heap_wf_def dom_def unat_gt_0 Let_def split: if_splits option.splits)

lemma realloc_Inr_nonnull:
  assumes "heap_wf h" "realloc t h p L n = Inr (q, h')" "q \<noteq> 0"
  shows "\<exists>b. blocks h p = Some b \<and> blk_layout b = L \<and> q = next_addr h \<and> q \<noteq> p
         \<and> blocks h' = (blocks h)(p := None, q \<mapsto> \<lparr>blk_layout = L\<lparr>lsize := n\<rparr>,
               blk_slots = resize_slots (unat n div unat (ty_size t)) (blk_slots b)\<rparr>)
         \<and> heap_wf h' \<and> drop_log h' = drop_log h \<and> next_addr h < next_addr h'
         \<and> unat n \<le> avail h \<and> avail h' = avail h - unat n + unat (lsize L)"
  using assms by (auto simp: realloc_def heap_wf_def dom_def unat_gt_0 Let_def split: if_splits option.splits) (metis trans_less_add1)

lemma realloc_Inr_iff:
  "(\<exists>r. realloc t h p L n = Inr r) \<longleftrightarrow>
     (\<exists>b. blocks h p = Some b \<and> blk_layout b = L) \<and> n \<noteq> 0"
  by (auto simp: realloc_def Let_def split: option.splits)

lemma realloc_nonnull_iff:
  "heap_wf h \<Longrightarrow> blocks h p = Some b \<Longrightarrow> blk_layout b = L \<Longrightarrow> n \<noteq> 0 \<Longrightarrow>
     (\<exists>h'. realloc t h p L n = Inr (0, h')) \<longleftrightarrow> avail h < unat n"
  by (auto simp: realloc_def heap_wf_def Let_def)

lemma resize_slots_grow:
  "length ss \<le> k \<Longrightarrow> resize_slots k ss = ss @ replicate (k - length ss) Uninit"
  by (simp add: resize_slots_def)

lemma write_slot_Inr:
  assumes "write_slot t h p i s = Inr h'" "ty_size t \<noteq> 0"
  shows "\<exists>b. blocks h p = Some b \<and> i < length (blk_slots b)
         \<and> h' = h\<lparr>blocks := (blocks h)(p \<mapsto> b\<lparr>blk_slots := (blk_slots b)[i := s]\<rparr>)\<rparr>"
  using assms by (auto simp: write_slot_def valid_slot_def split: if_splits option.splits)

lemma write_slot_ok:
  "blocks h p = Some b \<Longrightarrow> i < length (blk_slots b) \<Longrightarrow> ty_size t \<noteq> 0 \<Longrightarrow>
     write_slot t h p i s = Inr (h\<lparr>blocks := (blocks h)(p \<mapsto> b\<lparr>blk_slots := (blk_slots b)[i := s]\<rparr>)\<rparr>)"
  by (simp add: write_slot_def valid_slot_def)

lemma heap_wf_update_live:
  "heap_wf h \<Longrightarrow> blocks h p = Some b \<Longrightarrow> heap_wf (h\<lparr>blocks := (blocks h)(p \<mapsto> b')\<rparr>)"
  by (auto simp: heap_wf_def)

lemma dealloc_Inr:
  "dealloc h p L = Inr h' \<longleftrightarrow>
     (\<exists>b. blocks h p = Some b \<and> blk_layout b = L
          \<and> h' = h\<lparr>blocks := (blocks h)(p := None), avail := avail h + unat (lsize L)\<rparr>)"
  by (auto simp: dealloc_def split: option.splits)

lemma heap_wf_dealloc:
  "heap_wf h \<Longrightarrow> dealloc h p L = Inr h' \<Longrightarrow> heap_wf h'"
  by (auto simp: dealloc_Inr heap_wf_def dom_def split: if_splits)

end
