(* ===== verification/Vector.thy ===== *)
theory Vector
  imports Memory
begin

text \<open>
  \<open>Vector<T>\<close> of \<open>src/src/Vector.rs\<close>: the struct (lines 5--9) as a record, and
  \<open>new\<close>, \<open>push\<close>, \<open>size\<close> and \<open>grow\<close> (lines 12--58) as functions that take
  the vector and the heap and return both, or the way the call fails.  The
  representation invariant and the abstraction to the list of live elements
  are defined here, with the lemmas that every operation keeps the invariant
  and acts on the abstraction as the spec says.
\<close>

section \<open>The struct\<close>

record vector =
  ptr :: addr
  capacity :: usize
  length_v :: usize

section \<open>Operations\<close>

definition new_v :: "elem_ty \<Rightarrow> vector" where
  "new_v t = \<lparr>ptr = dangling t, capacity = 0, length_v = 0\<rparr>"

definition size_v :: "vector \<Rightarrow> usize" where
  "size_v v = length_v v"

text \<open>
  \<open>grow\<close>: first the new capacity and its layout (4 for an empty vector, else
  twice the old capacity; each \<open>Layout::array\<close> is unwrapped), then \<open>alloc\<close> for an
  empty vector or \<open>realloc\<close> of the old block to the new byte size, then
  \<open>NonNull::new(..).unwrap_or_else(handle_alloc_error)\<close>; pointer and capacity are
  written together at the end.
\<close>

definition grow :: "elem_ty \<Rightarrow> vector \<Rightarrow> 'a heap \<Rightarrow> (vector \<times> 'a heap) result" where
  "grow t v h =
     (case (if capacity v = 0 then Some 4 else checked_mul (capacity v) 2) of
        None \<Rightarrow> Inl (Panic MulOverflow)
      | Some new_capacity \<Rightarrow>
          (case layout_array t new_capacity of
             None \<Rightarrow> Inl (Panic LayoutErr)
           | Some new_layout \<Rightarrow>
               (case (if capacity v = 0 then alloc t new_layout h
                      else case layout_array t (capacity v) of
                             None \<Rightarrow> Inl (Panic LayoutErr)
                           | Some old_layout \<Rightarrow>
                               realloc t h (ptr v) old_layout (lsize new_layout)) of
                  Inl e \<Rightarrow> Inl e
                | Inr (new_ptr, h') \<Rightarrow>
                    if new_ptr = 0 then Inl (AllocAbort (lsize new_layout))
                    else Inr (v\<lparr>ptr := new_ptr, capacity := new_capacity\<rparr>, h'))))"

text \<open>\<open>push\<close>: grow when full, write the value into slot \<open>length\<close>, then \<open>length += 1\<close>.\<close>

definition push :: "elem_ty \<Rightarrow> 'a \<Rightarrow> vector \<Rightarrow> 'a heap \<Rightarrow> (vector \<times> 'a heap) result" where
  "push t x v h =
     (case (if length_v v = capacity v then grow t v h else Inr (v, h)) of
        Inl e \<Rightarrow> Inl e
      | Inr (v1, h1) \<Rightarrow>
          (case write_slot t h1 (ptr v1) (unat (length_v v1)) (Init x) of
             Inl e \<Rightarrow> Inl e
           | Inr h2 \<Rightarrow>
               (case checked_add (length_v v1) 1 of
                  None \<Rightarrow> Inl (Panic AddOverflow)
                | Some n \<Rightarrow> Inr (v1\<lparr>length_v := n\<rparr>, h2))))"

section \<open>Representation invariant and abstraction\<close>

text \<open>
  The invariant of spec section 3: \<open>length \<le> capacity\<close>; an empty-capacity vector
  holds the dangling pointer and no block; otherwise \<open>ptr\<close> is a live block
  obtained with \<open>Layout::array(capacity)\<close>, holding \<open>capacity\<close> slots of which
  exactly the first \<open>length\<close> are initialised.
\<close>

definition block_ok :: "elem_ty \<Rightarrow> vector \<Rightarrow> 'a block \<Rightarrow> bool" where
  "block_ok t v b \<longleftrightarrow>
     Some (blk_layout b) = layout_array t (capacity v)
     \<and> List.length (blk_slots b) = unat (capacity v)
     \<and> list_all is_init (take (unat (length_v v)) (blk_slots b))
     \<and> list_all (\<lambda>s. s = Uninit) (drop (unat (length_v v)) (blk_slots b))"

definition vec_inv :: "elem_ty \<Rightarrow> vector \<Rightarrow> 'a heap \<Rightarrow> bool" where
  "vec_inv t v h \<longleftrightarrow> length_v v \<le> capacity v \<and>
     (if capacity v = 0 then ptr v = dangling t
      else case blocks h (ptr v) of None \<Rightarrow> False | Some b \<Rightarrow> block_ok t v b)"

text \<open>The live elements, slots \<open>[0, length)\<close>, in order.\<close>

definition contents :: "vector \<Rightarrow> 'a heap \<Rightarrow> 'a list" where
  "contents v h =
     (if capacity v = 0 then []
      else case blocks h (ptr v) of
        None \<Rightarrow> []
      | Some b \<Rightarrow> map init_val (take (unat (length_v v)) (blk_slots b)))"

declare new_v_def [vec_simps] size_v_def [vec_simps] grow_def [vec_simps] push_def [vec_simps]

section \<open>Lemmas on grow and push\<close>

lemma layout_array_slots:
  assumes "ty_wf t" "ty_size t \<noteq> 0" "layout_array t n = Some L"
  shows "unat (lsize L) div unat (ty_size t) = unat n"
  using layout_array_size [OF assms(1,3)] assms(2) by (simp add: unat_gt_0)

lemma layout_array_eq_Some:
  "layout_array t n = Some L \<Longrightarrow> L = \<lparr>lsize = ty_size t * n, lalign = ty_align t\<rparr>"
  by (auto simp: layout_array_def split: if_splits)

lemma block_ok_fresh:
  assumes "ty_wf t" "ty_size t \<noteq> 0" "layout_array t n = Some L" "length_v v = 0"
  shows "block_ok t (v\<lparr>ptr := p, capacity := n\<rparr>) (new_block t L)"
  using assms layout_array_slots [OF assms(1-3)]
  by (simp add: block_ok_def new_block_def list_all_iff)

lemma block_ok_grown:
  assumes "ty_wf t" "ty_size t \<noteq> 0" "block_ok t v b" "layout_array t n = Some L"
    "unat (capacity v) \<le> unat n" "layout_array t (capacity v) = Some L0"
    "length_v v \<le> capacity v"
  shows "block_ok t (v\<lparr>ptr := p, capacity := n\<rparr>)
           \<lparr>blk_layout = L0\<lparr>lsize := lsize L\<rparr>, blk_slots = resize_slots (unat (lsize L) div unat (ty_size t)) (blk_slots b)\<rparr>"
proof -
  have len: "List.length (blk_slots b) = unat (capacity v)"
    and ini: "list_all is_init (take (unat (length_v v)) (blk_slots b))"
    and uni: "list_all (\<lambda>s. s = Uninit) (drop (unat (length_v v)) (blk_slots b))"
    using assms(3) by (auto simp: block_ok_def)
  have L: "L0\<lparr>lsize := lsize L\<rparr> = L"
    using layout_array_eq_Some [OF assms(4)] layout_array_eq_Some [OF assms(6)] by simp
  have rs: "resize_slots (unat (lsize L) div unat (ty_size t)) (blk_slots b)
            = blk_slots b @ replicate (unat n - unat (capacity v)) Uninit"
    using layout_array_slots [OF assms(1,2,4)] len assms(5) by (simp add: resize_slots_grow)
  show ?thesis
    using assms(4,5,7) len ini uni
    by (auto simp: word_le_nat_alt simp: block_ok_def L rs list_all_iff)
qed


lemma vec_inv_block:
  assumes "vec_inv t v h" "capacity v \<noteq> 0"
  obtains b L where "blocks h (ptr v) = Some b" "block_ok t v b"
    "layout_array t (capacity v) = Some L" "blk_layout b = L"
proof -
  from assms obtain b where b: "blocks h (ptr v) = Some b" "block_ok t v b"
    by (auto simp: vec_inv_def split: option.splits)
  then have "layout_array t (capacity v) = Some (blk_layout b)"
    by (simp add: block_ok_def)
  with b show thesis using that by blast
qed

lemma checked_mul_double:
  "unat c < 2 ^ 63 \<Longrightarrow> checked_mul c 2 = Some (c * 2)"
  by (simp add: checked_mul_def)

lemma grow_ok:
  assumes wf: "ty_wf t" "ty_size t \<noteq> 0" and inv: "vec_inv t v h" and hw: "heap_wf h"
    and g: "grow t v h = Inr (v', h')"
  shows "vec_inv t v' h' \<and> heap_wf h' \<and> length_v v' = length_v v \<and> contents v' h' = contents v h
         \<and> unat (capacity v') = (if capacity v = 0 then 4 else 2 * unat (capacity v))
         \<and> drop_log h' = drop_log h \<and> ptr v' = next_addr h \<and> blocks h (ptr v') = None
         \<and> (\<forall>q. q \<noteq> ptr v' \<longrightarrow> blocks h' q = (if capacity v \<noteq> 0 \<and> q = ptr v then None else blocks h q))
         \<and> avail h' + unat (ty_size t) * unat (capacity v') = avail h + unat (ty_size t) * unat (capacity v)"
proof (cases "capacity v = 0")
  case True
  then have len0: "length_v v = 0" using inv by (simp add: vec_inv_def)
  from g True obtain L p where L: "layout_array t 4 = Some L" and a: "alloc t L h = Inr (p, h')"
      and p: "p \<noteq> 0" and v': "v' = v\<lparr>ptr := p, capacity := 4\<rparr>"
    by (auto simp: grow_def split: option.splits sum.splits if_splits)
  from alloc_Inr_nonnull [OF hw a p]
  have p': "p = next_addr h" and bl: "blocks h' = (blocks h)(p \<mapsto> new_block t L)"
      and rest: "heap_wf h'" "drop_log h' = drop_log h"
      and av: "unat (lsize L) \<le> avail h" "avail h' = avail h - unat (lsize L)" by auto
  have sz4: "unat (lsize L) = unat (ty_size t) * 4"
    using layout_array_size [OF wf(1) L] by simp
  have "block_ok t v' (new_block t L)"
    using block_ok_fresh [OF wf L len0] v' by simp
  then show ?thesis
    using True len0 v' p' bl rest p hw av sz4 by (simp add: vec_inv_def contents_def)
next
  case False
  obtain b L0 where b: "blocks h (ptr v) = Some b" "block_ok t v b"
      and L0: "layout_array t (capacity v) = Some L0" "blk_layout b = L0"
    using inv False by (rule vec_inv_block)
  have cb: "unat (capacity v) < 2 ^ 63"
    using layout_array_count_bound [OF wf L0(1)] .
  from g False L0(1) checked_mul_double [OF cb]
  obtain L q where L: "layout_array t (capacity v * 2) = Some L"
      and r: "realloc t h (ptr v) L0 (lsize L) = Inr (q, h')" and q: "q \<noteq> 0"
      and v': "v' = v\<lparr>ptr := q, capacity := capacity v * 2\<rparr>"
    by (auto simp: grow_def split: option.splits sum.splits if_splits)
  from realloc_Inr_nonnull [OF hw r q] b(1)
  have q': "q = next_addr h" "q \<noteq> ptr v"
      and bl: "blocks h' = (blocks h)(ptr v := None, q \<mapsto> \<lparr>blk_layout = L0\<lparr>lsize := lsize L\<rparr>,
               blk_slots = resize_slots (unat (lsize L) div unat (ty_size t)) (blk_slots b)\<rparr>)"
      and rest: "heap_wf h'" "drop_log h' = drop_log h"
      and av: "unat (lsize L) \<le> avail h" "avail h' = avail h - unat (lsize L) + unat (lsize L0)" by auto
  have sz: "unat (lsize L) = unat (ty_size t) * unat (capacity v * 2)"
    "unat (lsize L0) = unat (ty_size t) * unat (capacity v)"
    using layout_array_size [OF wf(1) L] layout_array_size [OF wf(1) L0(1)] by simp_all
  have dbl: "unat (capacity v * 2) = 2 * unat (capacity v)"
    using unat_double_no_wrap [OF cb] .
  have le: "length_v v \<le> capacity v" using inv by (simp add: vec_inv_def)
  have ok: "block_ok t v' \<lparr>blk_layout = L0\<lparr>lsize := lsize L\<rparr>,
               blk_slots = resize_slots (unat (lsize L) div unat (ty_size t)) (blk_slots b)\<rparr>"
    using block_ok_grown [OF wf b(2) L _ L0(1) le] dbl v' by simp
  have nz: "capacity v * 2 \<noteq> 0"
    using dbl False by (metis mult_is_0 unat_eq_zero zero_neq_numeral)
  have "length_v v' \<le> capacity v'"
    using le v' dbl by (simp add: word_le_nat_alt)
  moreover have "take (unat (length_v v)) (resize_slots (unat (lsize L) div unat (ty_size t)) (blk_slots b))
                 = take (unat (length_v v)) (blk_slots b)"
    using b(2) le layout_array_slots [OF wf L] dbl
    by (simp add: resize_slots_grow block_ok_def word_le_nat_alt)
  ultimately show ?thesis
    using ok v' q' bl rest False nz b(1) dbl hw av sz by (simp add: vec_inv_def contents_def)
qed


lemma take_Suc_update_last:
  "n < List.length xs \<Longrightarrow> take (Suc n) (xs[n := y]) = take n xs @ [y]"
  by (simp add: take_Suc_conv_app_nth)

lemma list_all_drop_Suc:
  "list_all P (drop n xs) \<Longrightarrow> list_all P (drop (Suc n) xs)"
  by (simp add: list_all_iff) (meson in_set_dropD set_drop_subset_set_drop Suc_leD subsetD le_refl)

lemma block_ok_push:
  assumes ok: "block_ok t v b" and lt: "length_v v < capacity v"
  shows "block_ok t (v\<lparr>length_v := length_v v + 1\<rparr>)
           (b\<lparr>blk_slots := (blk_slots b)[unat (length_v v) := Init x]\<rparr>)
         \<and> map init_val (take (unat (length_v v + 1)) ((blk_slots b)[unat (length_v v) := Init x]))
           = map init_val (take (unat (length_v v)) (blk_slots b)) @ [x]"
proof -
  have suc: "unat (length_v v + 1) = Suc (unat (length_v v))"
    using word_suc_no_wrap [OF lt] .
  have n: "unat (length_v v) < List.length (blk_slots b)"
    using ok lt by (simp add: block_ok_def word_less_nat_alt)
  have tk: "take (Suc (unat (length_v v))) ((blk_slots b)[unat (length_v v) := Init x])
            = take (unat (length_v v)) (blk_slots b) @ [Init x]"
    using take_Suc_update_last [OF n] .
  have dr: "drop (Suc (unat (length_v v))) ((blk_slots b)[unat (length_v v) := Init x])
            = drop (Suc (unat (length_v v))) (blk_slots b)"
    by simp
  show ?thesis
    using ok suc tk dr by (simp add: block_ok_def list_all_drop_Suc)
qed

lemma push_grow_step:
  assumes wf: "ty_wf t" "ty_size t \<noteq> 0" and inv: "vec_inv t v h" and hw: "heap_wf h"
    and g: "(if length_v v = capacity v then grow t v h else Inr (v, h)) = Inr (v1, h1)"
  shows "vec_inv t v1 h1 \<and> heap_wf h1 \<and> length_v v1 = length_v v \<and> contents v1 h1 = contents v h
         \<and> drop_log h1 = drop_log h \<and> length_v v1 < capacity v1
         \<and> unat (capacity v1) = (if length_v v \<noteq> capacity v then unat (capacity v)
                                 else if capacity v = 0 then 4 else 2 * unat (capacity v))
         \<and> avail h1 + unat (ty_size t) * unat (capacity v1) = avail h + unat (ty_size t) * unat (capacity v)"
proof (cases "length_v v = capacity v")
  case True
  with g have "grow t v h = Inr (v1, h1)" by simp
  from grow_ok [OF wf inv hw this] True show ?thesis
    by (auto simp: word_less_nat_alt unat_gt_0 split: if_splits)
next
  case False
  have "length_v v < capacity v"
    using False inv by (simp add: vec_inv_def order_less_le)
  with False g inv hw show ?thesis
    by simp
qed

lemma layout_array_lsize_nz:
  assumes "ty_wf t" "ty_size t \<noteq> 0" "layout_array t n = Some L" "n \<noteq> 0"
  shows "lsize L \<noteq> 0"
proof -
  have "unat (lsize L) = unat (ty_size t) * unat n"
    using layout_array_size [OF assms(1,3)] by simp
  moreover have "0 < unat (ty_size t) * unat n"
    using assms(2,4) by (simp add: unat_gt_0)
  ultimately show ?thesis by (metis unat_0 less_irrefl)
qed

lemma grow_cases:
  assumes wf: "ty_wf t" "ty_size t \<noteq> 0" and inv: "vec_inv t v h" and hw: "heap_wf h"
  shows "case layout_array t (if capacity v = 0 then 4 else capacity v * 2) of
           None \<Rightarrow> grow t v h = Inl (Panic LayoutErr)
         | Some L \<Rightarrow> (if avail h < unat (lsize L) then grow t v h = Inl (AllocAbort (lsize L))
                     else \<exists>h'. grow t v h = Inr (v\<lparr>ptr := next_addr h,
                                capacity := (if capacity v = 0 then 4 else capacity v * 2)\<rparr>, h'))"
proof (cases "capacity v = 0")
  case True
  show ?thesis
  proof (cases "layout_array t 4")
    case None
    with True show ?thesis by (simp add: grow_def)
  next
    case (Some L)
    have nz: "lsize L \<noteq> 0" using layout_array_lsize_nz [OF wf Some] by simp
    have "0 < next_addr h" using hw by (simp add: heap_wf_def)
    with True Some nz show ?thesis
      by (auto simp: grow_def alloc_def Let_def)
  qed
next
  case False
  obtain b L0 where b: "blocks h (ptr v) = Some b" "block_ok t v b"
      and L0: "layout_array t (capacity v) = Some L0" "blk_layout b = L0"
    using inv False by (rule vec_inv_block)
  have cb: "unat (capacity v) < 2 ^ 63"
    using layout_array_count_bound [OF wf L0(1)] .
  note cm = checked_mul_double [OF cb]
  show ?thesis
  proof (cases "layout_array t (capacity v * 2)")
    case None
    with False cm show ?thesis by (simp add: grow_def)
  next
    case (Some L)
    have "capacity v * 2 \<noteq> 0"
      using unat_double_no_wrap [OF cb] False by (metis mult_is_0 unat_eq_zero zero_neq_numeral)
    then have nz: "lsize L \<noteq> 0" using layout_array_lsize_nz [OF wf Some] by simp
    have "0 < next_addr h" using hw by (simp add: heap_wf_def)
    with False Some nz cm L0 b show ?thesis
      by (auto simp: grow_def realloc_def Let_def)
  qed
qed

lemma push_step_Inr:
  assumes wf: "ty_wf t" "ty_size t \<noteq> 0" and inv: "vec_inv t v h" and hw: "heap_wf h"
    and g: "(if length_v v = capacity v then grow t v h else Inr (v, h)) = Inr (v1, h1)"
  shows "\<exists>b. blocks h1 (ptr v1) = Some b \<and> block_ok t v1 b \<and>
           push t x v h = Inr (v1\<lparr>length_v := length_v v1 + 1\<rparr>,
             h1\<lparr>blocks := (blocks h1)(ptr v1 \<mapsto> b\<lparr>blk_slots := (blk_slots b)[unat (length_v v1) := Init x]\<rparr>)\<rparr>)"
proof -
  note step = push_grow_step [OF wf inv hw g]
  from step have inv1: "vec_inv t v1 h1" and lt1: "length_v v1 < capacity v1"
    by blast+
  have nz: "capacity v1 \<noteq> 0" using lt1 by auto
  obtain b where b: "blocks h1 (ptr v1) = Some b" "block_ok t v1 b"
    using inv1 nz by (auto simp: vec_inv_def split: option.splits)
  have lt: "unat (length_v v1) < List.length (blk_slots b)"
    using lt1 b(2) by (simp add: block_ok_def word_less_nat_alt)
  have suc: "unat (length_v v1 + 1) = Suc (unat (length_v v1))"
    using word_suc_no_wrap [OF lt1] .
  have ca: "checked_add (length_v v1) 1 = Some (length_v v1 + 1)"
    using suc unsigned_less [of "length_v v1 + 1", where ?'a = nat] by (simp add: checked_add_def)
  show ?thesis
    using b g write_slot_ok [OF b(1) lt wf(2)] ca by (simp add: push_def)
qed

lemma push_ok:
  assumes wf: "ty_wf t" "ty_size t \<noteq> 0" and inv: "vec_inv t v h" and hw: "heap_wf h"
    and p: "push t x v h = Inr (v', h')"
  shows "vec_inv t v' h' \<and> heap_wf h' \<and> contents v' h' = contents v h @ [x]
         \<and> unat (length_v v') = Suc (unat (length_v v)) \<and> drop_log h' = drop_log h
         \<and> unat (capacity v') = (if length_v v \<noteq> capacity v then unat (capacity v)
                                 else if capacity v = 0 then 4 else 2 * unat (capacity v))
         \<and> avail h' + unat (ty_size t) * unat (capacity v') = avail h + unat (ty_size t) * unat (capacity v)"
proof -
  obtain v1 h1 where g: "(if length_v v = capacity v then grow t v h else Inr (v, h)) = Inr (v1, h1)"
    using p by (auto simp: push_def split: sum.splits)
  note step = push_grow_step [OF wf inv hw g]
  from step have hw1: "heap_wf h1" and len1: "length_v v1 = length_v v"
      and c1: "contents v1 h1 = contents v h" and dl1: "drop_log h1 = drop_log h"
      and lt1: "length_v v1 < capacity v1"
    by blast+
  have nz: "capacity v1 \<noteq> 0" using lt1 by auto
  obtain b where b: "blocks h1 (ptr v1) = Some b" "block_ok t v1 b"
    and pr: "push t x v h = Inr (v1\<lparr>length_v := length_v v1 + 1\<rparr>,
             h1\<lparr>blocks := (blocks h1)(ptr v1 \<mapsto> b\<lparr>blk_slots := (blk_slots b)[unat (length_v v1) := Init x]\<rparr>)\<rparr>)"
    using push_step_Inr [OF wf inv hw g, of x] by blast
  from p pr have v': "v' = v1\<lparr>length_v := length_v v1 + 1\<rparr>"
      and h': "h' = h1\<lparr>blocks := (blocks h1)(ptr v1 \<mapsto> b\<lparr>blk_slots := (blk_slots b)[unat (length_v v1) := Init x]\<rparr>)\<rparr>"
    by simp_all
  note bp = block_ok_push [OF b(2) lt1, of x]
  have suc: "unat (length_v v1 + 1) = Suc (unat (length_v v1))"
    using word_suc_no_wrap [OF lt1] .
  have "length_v v1 + 1 \<le> capacity v1"
    using lt1 by (simp add: inc_le)
  moreover have "heap_wf h'"
    using h' hw1 b(1) by (simp add: heap_wf_update_live)
  moreover have "contents v' h' = contents v h @ [x]"
    using bp v' h' nz b(1) c1 by (simp add: contents_def)
  ultimately have main: "vec_inv t v' h' \<and> heap_wf h' \<and> contents v' h' = contents v h @ [x]
         \<and> unat (length_v v') = Suc (unat (length_v v)) \<and> drop_log h' = drop_log h
         \<and> unat (capacity v') = (if length_v v \<noteq> capacity v then unat (capacity v)
                                 else if capacity v = 0 then 4 else 2 * unat (capacity v))"
    using step bp v' h' nz b(1) len1 dl1 suc by (simp add: vec_inv_def)
  have av1: "avail h1 + unat (ty_size t) * unat (capacity v1) = avail h + unat (ty_size t) * unat (capacity v)"
    using step by blast
  have "avail h' + unat (ty_size t) * unat (capacity v') = avail h + unat (ty_size t) * unat (capacity v)"
    using av1 v' h' by simp
  with main show ?thesis by blast
qed

lemma push_error:
  assumes wf: "ty_wf t" "ty_size t \<noteq> 0" and inv: "vec_inv t v h" and hw: "heap_wf h"
    and p: "push t x v h = Inl e"
  shows "length_v v = capacity v \<and> grow t v h = Inl e"
proof (cases "length_v v = capacity v")
  case True
  show ?thesis
  proof (cases "grow t v h")
    case (Inl e')
    with True p show ?thesis by (simp add: push_def)
  next
    case (Inr r)
    then obtain v1 h1 where "grow t v h = Inr (v1, h1)" by (cases r) auto
    with True push_step_Inr [OF wf inv hw, of v1 h1 x] p show ?thesis by auto
  qed
next
  case False
  with push_step_Inr [OF wf inv hw, of v h x] p show ?thesis by auto
qed

lemma contents_length:
  assumes "vec_inv t v h"
  shows "List.length (contents v h) = unat (length_v v)"
proof (cases "capacity v = 0")
  case True
  with assms show ?thesis by (simp add: vec_inv_def contents_def)
next
  case False
  obtain b L where "blocks h (ptr v) = Some b" "block_ok t v b"
    using assms False by (rule vec_inv_block)
  with False assms show ?thesis
    by (simp add: contents_def block_ok_def vec_inv_def word_le_nat_alt)
qed

lemma vec_inv_blocks_eq:
  assumes "blocks h' (ptr v) = blocks h (ptr v)"
  shows "vec_inv t v h' = vec_inv t v h \<and> contents v h' = contents v h"
  using assms by (simp add: vec_inv_def contents_def)

lemma push_frame:
  assumes wf: "ty_wf t" "ty_size t \<noteq> 0" and inv: "vec_inv t v h" and hw: "heap_wf h"
    and p: "push t x v h = Inr (v', h')"
  shows "(\<forall>q. q \<noteq> ptr v' \<longrightarrow> blocks h' q = (if capacity v \<noteq> 0 \<and> q = ptr v then None else blocks h q))
         \<and> ((capacity v \<noteq> 0 \<and> ptr v' = ptr v) \<or> blocks h (ptr v') = None)"
proof -
  obtain v1 h1 where g: "(if length_v v = capacity v then grow t v h else Inr (v, h)) = Inr (v1, h1)"
    using p by (auto simp: push_def split: sum.splits)
  obtain b where pr: "push t x v h = Inr (v1\<lparr>length_v := length_v v1 + 1\<rparr>,
             h1\<lparr>blocks := (blocks h1)(ptr v1 \<mapsto> b\<lparr>blk_slots := (blk_slots b)[unat (length_v v1) := Init x]\<rparr>)\<rparr>)"
    using push_step_Inr [OF wf inv hw g, of x] by blast
  from p pr have pv: "ptr v' = ptr v1"
      and bh: "blocks h' = (blocks h1)(ptr v1 \<mapsto> b\<lparr>blk_slots := (blk_slots b)[unat (length_v v1) := Init x]\<rparr>)"
    by auto
  show ?thesis
  proof (cases "length_v v = capacity v")
    case True
    with g have "grow t v h = Inr (v1, h1)" by simp
    note go = grow_ok [OF wf inv hw this]
    with pv bh show ?thesis by auto
  next
    case False
    with g have "v1 = v" "h1 = h" by simp_all
    moreover have "capacity v \<noteq> 0"
      using False inv by (auto simp: vec_inv_def)
    ultimately show ?thesis using pv bh by auto
  qed
qed

lemma push_succeeds:
  assumes wf: "ty_wf t" "ty_size t \<noteq> 0" and inv: "vec_inv t v h" and hw: "heap_wf h"
    and room: "length_v v < capacity v \<or>
      (\<exists>L. layout_array t (if capacity v = 0 then 4 else capacity v * 2) = Some L
           \<and> unat (lsize L) \<le> avail h)"
  shows "\<exists>v' h'. push t x v h = Inr (v', h')"
proof (cases "length_v v = capacity v")
  case True
  with room obtain L where L: "layout_array t (if capacity v = 0 then 4 else capacity v * 2) = Some L"
      and m: "unat (lsize L) \<le> avail h"
    by auto
  from grow_cases [OF wf inv hw] L m obtain h1 where
    "grow t v h = Inr (v\<lparr>ptr := next_addr h, capacity := (if capacity v = 0 then 4 else capacity v * 2)\<rparr>, h1)"
    by auto
  with True push_step_Inr [OF wf inv hw] show ?thesis by fastforce
next
  case False
  with push_step_Inr [OF wf inv hw, of v h x] show ?thesis by auto
qed

end
