(* ===== verification/Drop.thy ===== *)
theory Drop
  imports Vector
begin

text \<open>
  The destructor \<open>impl Drop for Vector<T>\<close> (\<open>src/src/Vector.rs\<close> lines 61--74):
  a loop over \<open>0..length\<close> calling \<open>drop_in_place\<close> on each slot pointer, then
  \<open>dealloc\<close> of the block when the capacity is not zero.  The slot pointer has
  type \<open>*mut MaybeUninit<T>\<close>, so each call is \<open>drop_in_place_uninit\<close>, which runs
  no destructor of \<open>T\<close>.  Beside it, \<open>destroy_spec\<close> is the destructor spec
  section 4.1 describes (each live element deinitialised in index order, then the
  region released); the lemmas compare the two.
\<close>

section \<open>The destructor as written\<close>

fun drop_loop :: "elem_ty \<Rightarrow> 'a heap \<Rightarrow> addr \<Rightarrow> nat list \<Rightarrow> 'a heap result" where
  "drop_loop t h p [] = Inr h"
| "drop_loop t h p (i # idx) =
     (case drop_in_place_uninit t h p i of
        Inl e \<Rightarrow> Inl e
      | Inr h' \<Rightarrow> drop_loop t h' p idx)"

definition drop_v :: "elem_ty \<Rightarrow> vector \<Rightarrow> 'a heap \<Rightarrow> 'a heap result" where
  "drop_v t v h =
     (case drop_loop t h (ptr v) [0..<unat (length_v v)] of
        Inl e \<Rightarrow> Inl e
      | Inr h1 \<Rightarrow>
          if capacity v \<noteq> 0 then
            (case layout_array t (capacity v) of
               None \<Rightarrow> Inl (Panic LayoutErr)
             | Some L \<Rightarrow> dealloc h1 (ptr v) L)
          else Inr h1)"

section \<open>The destructor the spec describes\<close>

fun drop_elems_loop :: "elem_ty \<Rightarrow> 'a heap \<Rightarrow> addr \<Rightarrow> nat list \<Rightarrow> 'a heap result" where
  "drop_elems_loop t h p [] = Inr h"
| "drop_elems_loop t h p (i # idx) =
     (case drop_in_place_elem t h p i of
        Inl e \<Rightarrow> Inl e
      | Inr h' \<Rightarrow> drop_elems_loop t h' p idx)"

definition destroy_spec :: "elem_ty \<Rightarrow> vector \<Rightarrow> 'a heap \<Rightarrow> 'a heap result" where
  "destroy_spec t v h =
     (case drop_elems_loop t h (ptr v) [0..<unat (length_v v)] of
        Inl e \<Rightarrow> Inl e
      | Inr h1 \<Rightarrow>
          if capacity v \<noteq> 0 then
            (case layout_array t (capacity v) of
               None \<Rightarrow> Inl (Panic LayoutErr)
             | Some L \<Rightarrow> dealloc h1 (ptr v) L)
          else Inr h1)"

declare drop_v_def [vec_simps]

section \<open>Lemmas\<close>

lemma drop_loop_result:
  "drop_loop t h p idx = Inr h' \<Longrightarrow> h' = h"
proof (induction idx arbitrary: h)
  case Nil
  then show ?case by simp
next
  case (Cons i idx)
  then show ?case
    by (auto simp: drop_in_place_uninit_def split: if_splits)
qed

lemma drop_loop_valid:
  "\<forall>i \<in> set idx. valid_slot t h p i \<Longrightarrow> drop_loop t h p idx = Inr h"
  by (induction idx) (auto simp: drop_in_place_uninit_def)

lemma drop_elems_loop_upt:
  assumes "blocks h p = Some b" "n \<le> List.length (blk_slots b)"
    "list_all is_init (drop k (take n (blk_slots b)))" "k \<le> n"
  shows "drop_elems_loop t h p [k..<n] =
           Inr (h\<lparr>blocks := (blocks h)(p \<mapsto> b\<lparr>blk_slots := take k (blk_slots b) @ replicate (n - k) Uninit @ drop n (blk_slots b)\<rparr>),
                  drop_log := drop_log h @ map init_val (drop k (take n (blk_slots b)))\<rparr>)"
  using assms
proof (induction "n - k" arbitrary: k h b)
  case 0
  then have "k = n" by simp
  then show ?case using "0.prems"(1)
    by (simp add: fun_upd_idem)
next
  case (Suc d)
  let ?ss = "blk_slots b"
  have kn: "k < n" using Suc.hyps(2) by simp
  have dk: "drop k (take n ?ss) = ?ss ! k # drop (Suc k) (take n ?ss)"
    using Cons_nth_drop_Suc [of k "take n ?ss"] kn Suc.prems(2) by simp
  have init: "is_init (?ss ! k)"
    using Suc.prems(3) dk by simp
  define b1 where "b1 = b\<lparr>blk_slots := ?ss[k := Uninit]\<rparr>"
  define h1 where "h1 = h\<lparr>blocks := (blocks h)(p \<mapsto> b1), drop_log := drop_log h @ [init_val (?ss ! k)]\<rparr>"
  have step: "drop_in_place_elem t h p k = Inr h1"
    using Suc.prems(1,2) kn init by (simp add: drop_in_place_elem_def h1_def b1_def)
  have ih: "drop_elems_loop t h1 p [Suc k..<n] =
           Inr (h1\<lparr>blocks := (blocks h1)(p \<mapsto> b1\<lparr>blk_slots := take (Suc k) (blk_slots b1) @ replicate (n - Suc k) Uninit @ drop n (blk_slots b1)\<rparr>),
                  drop_log := drop_log h1 @ map init_val (drop (Suc k) (take n (blk_slots b1)))\<rparr>)"
  proof (rule Suc.hyps(1))
    show "d = n - Suc k" using Suc.hyps(2) by simp
    show "blocks h1 p = Some b1" by (simp add: h1_def)
    show "n \<le> List.length (blk_slots b1)" using Suc.prems(2) by (simp add: b1_def)
    show "list_all is_init (drop (Suc k) (take n (blk_slots b1)))"
      using Suc.prems(3) dk by (simp add: b1_def take_update_swap)
    show "Suc k \<le> n" using kn by simp
  qed
  have up: "[k..<n] = k # [Suc k..<n]" using kn by (simp add: upt_conv_Cons)
  have sl: "take (Suc k) (?ss[k := Uninit]) @ replicate (n - Suc k) Uninit @ drop n (?ss[k := Uninit])
            = take k ?ss @ replicate (n - k) Uninit @ drop n ?ss"
  proof -
    have "n - k = Suc (n - Suc k)" using kn by simp
    then show ?thesis using kn Suc.prems(2) by (simp add: take_Suc_update_last)
  qed
  have lg: "init_val (?ss ! k) # map init_val (drop (Suc k) (take n (?ss[k := Uninit])))
            = map init_val (drop k (take n ?ss))"
    using dk by (simp add: take_update_swap)
  show ?case
    using up step ih sl lg by (simp add: h1_def b1_def)
qed

lemma vec_inv_len_le:
  "vec_inv t v h \<Longrightarrow> unat (length_v v) \<le> unat (capacity v)"
  by (simp add: vec_inv_def word_le_nat_alt)

lemma drop_v_ok:
  assumes wf: "ty_wf t" "ty_size t \<noteq> 0" and inv: "vec_inv t v h"
  shows "drop_v t v h = Inr (if capacity v = 0 then h
           else h\<lparr>blocks := (blocks h)(ptr v := None),
                  avail := avail h + unat (ty_size t) * unat (capacity v)\<rparr>)"
proof (cases "capacity v = 0")
  case True
  then have "length_v v = 0" using inv by (simp add: vec_inv_def)
  with True show ?thesis by (simp add: drop_v_def)
next
  case False
  obtain b L where b: "blocks h (ptr v) = Some b" "block_ok t v b"
      and L: "layout_array t (capacity v) = Some L" "blk_layout b = L"
    using inv False by (rule vec_inv_block)
  have "\<forall>i \<in> set [0..<unat (length_v v)]. valid_slot t h (ptr v) i"
    using b vec_inv_len_le [OF inv] by (auto simp: valid_slot_def block_ok_def)
  then have "drop_loop t h (ptr v) [0..<unat (length_v v)] = Inr h"
    by (rule drop_loop_valid)
  moreover have "unat (lsize L) = unat (ty_size t) * unat (capacity v)"
    using layout_array_size [OF wf(1) L(1)] by simp
  ultimately show ?thesis
    using False b L by (simp add: drop_v_def dealloc_def)
qed

lemma drop_v_log:
  "drop_v t v h = Inr h' \<Longrightarrow> drop_log h' = drop_log h"
  by (auto simp: drop_v_def dealloc_Inr dest!: drop_loop_result split: sum.splits if_splits option.splits)

lemma destroy_spec_ok:
  assumes wf: "ty_wf t" "ty_size t \<noteq> 0" and inv: "vec_inv t v h"
  shows "\<exists>h'. destroy_spec t v h = Inr h' \<and> drop_log h' = drop_log h @ contents v h
           \<and> (capacity v \<noteq> 0 \<longrightarrow> blocks h' = (blocks h)(ptr v := None))"
proof (cases "capacity v = 0")
  case True
  then have "length_v v = 0" using inv by (simp add: vec_inv_def)
  with True show ?thesis by (simp add: destroy_spec_def contents_def)
next
  case False
  obtain b L where b: "blocks h (ptr v) = Some b" "block_ok t v b"
      and L: "layout_array t (capacity v) = Some L" "blk_layout b = L"
    using inv False by (rule vec_inv_block)
  have n: "unat (length_v v) \<le> List.length (blk_slots b)"
    using b(2) vec_inv_len_le [OF inv] by (simp add: block_ok_def)
  have ini: "list_all is_init (drop 0 (take (unat (length_v v)) (blk_slots b)))"
    using b(2) by (simp add: block_ok_def)
  note lp = drop_elems_loop_upt [OF b(1) n ini le0, of t]
  show ?thesis
    using False b L lp by (simp add: destroy_spec_def dealloc_def contents_def)
qed

end
