(* ===== verification/Runs.thy ===== *)
theory Runs
  imports Drop
begin

text \<open>
  Sequences of calls on one vector.  \<open>push_all\<close> is a client loop of pushes (the
  loops of the tests in \<open>src/src/Vector.rs\<close>), stopping at the first failure;
  \<open>reach\<close> is the set of states a vector created by \<open>Vector::new\<close> can be in
  after any number of successful pushes, as an inductive step relation.  The
  lemmas lift the one-push results to runs and to reachable states, bound the
  capacity of a reachable vector by its length (the space side of the doubling
  policy), bound the slots relocated over a run (the time side), and show that a
  run succeeds when the allocator's byte budget covers the peak of a doubling.
\<close>

section \<open>Runs and reachable states\<close>

fun push_all :: "elem_ty \<Rightarrow> 'a list \<Rightarrow> vector \<Rightarrow> 'a heap \<Rightarrow> (vector \<times> 'a heap) result" where
  "push_all t [] v h = Inr (v, h)"
| "push_all t (x # xs) v h =
     (case push t x v h of
        Inl e \<Rightarrow> Inl e
      | Inr (v', h') \<Rightarrow> push_all t xs v' h')"

inductive reach :: "elem_ty \<Rightarrow> 'a heap \<Rightarrow> vector \<Rightarrow> 'a heap \<Rightarrow> bool" for t h0 where
  reach_new: "reach t h0 (new_v t) h0"
| reach_push: "reach t h0 v h \<Longrightarrow> push t x v h = Inr (v', h') \<Longrightarrow> reach t h0 v' h'"

text \<open>Shape of the capacity of a vector built by pushes: zero while empty, else at
  least the length and either the initial 4 or less than twice the length.\<close>

definition cap_shape :: "nat \<Rightarrow> nat \<Rightarrow> bool" where
  "cap_shape c n \<longleftrightarrow> (c = 0 \<and> n = 0) \<or> (0 < n \<and> n \<le> c \<and> (c = 4 \<or> c < 2 * n))"

text \<open>
  Cost of a push, counted as the slots \<open>realloc\<close> relocates: the whole old region
  when the vector is full and already allocated, nothing otherwise.  This is a ghost
  measure on the model, used to state the amortised bound of spec section 4.1.
\<close>

definition grow_cost :: "vector \<Rightarrow> nat" where
  "grow_cost v = (if length_v v = capacity v then unat (capacity v) else 0)"

fun push_all_cost :: "elem_ty \<Rightarrow> 'a list \<Rightarrow> vector \<Rightarrow> 'a heap \<Rightarrow> nat" where
  "push_all_cost t [] v h = 0"
| "push_all_cost t (x # xs) v h =
     (case push t x v h of
        Inl _ \<Rightarrow> 0
      | Inr (v', h') \<Rightarrow> grow_cost v + push_all_cost t xs v' h')"

section \<open>Lemmas\<close>

lemma new_v_inv: "vec_inv t (new_v t) h"
  by (simp add: vec_inv_def new_v_def)

lemma new_v_contents [simp]: "contents (new_v t) h = []"
  by (simp add: contents_def new_v_def)

lemma push_all_ok:
  assumes wf: "ty_wf t" "ty_size t \<noteq> 0"
  shows "vec_inv t v h \<Longrightarrow> heap_wf h \<Longrightarrow> push_all t xs v h = Inr (v', h') \<Longrightarrow>
         vec_inv t v' h' \<and> heap_wf h' \<and> contents v' h' = contents v h @ xs
         \<and> unat (length_v v') = unat (length_v v) + List.length xs
         \<and> drop_log h' = drop_log h \<and> capacity v \<le> capacity v'"
proof (induction xs arbitrary: v h)
  case Nil
  then show ?case by simp
next
  case (Cons x xs)
  from Cons.prems(3) obtain v1 h1 where p: "push t x v h = Inr (v1, h1)"
      and r: "push_all t xs v1 h1 = Inr (v', h')"
    by (auto split: sum.splits)
  note one = push_ok [OF wf Cons.prems(1,2) p]
  have "capacity v \<le> capacity v1"
    using one by (simp add: word_le_nat_alt)
  with one Cons.IH [of v1 h1] r show ?case
    by auto
qed

lemma push_cap_shape:
  assumes wf: "ty_wf t" "ty_size t \<noteq> 0" and inv: "vec_inv t v h" and hw: "heap_wf h"
    and p: "push t x v h = Inr (v', h')"
    and cs: "cap_shape (unat (capacity v)) (unat (length_v v))"
  shows "cap_shape (unat (capacity v')) (unat (length_v v'))"
proof -
  note one = push_ok [OF wf inv hw p]
  have le: "unat (length_v v) \<le> unat (capacity v)"
    using inv by (simp add: vec_inv_def word_le_nat_alt)
  show ?thesis
  proof (cases "length_v v = capacity v")
    case True
    have c': "unat (capacity v') = (if unat (capacity v) = 0 then 4 else 2 * unat (capacity v))"
      using one True by (simp add: unat_eq_zero)
    have n': "unat (length_v v') = Suc (unat (capacity v))"
      using one True by simp
    show ?thesis
      using c' n' cs True by (auto simp: cap_shape_def)
  next
    case False
    then have "unat (length_v v) < unat (capacity v)"
      using le by (simp add: word_unat_eq_iff)
    with one cs False show ?thesis by (auto simp: cap_shape_def)
  qed
qed

lemma reach_inv:
  assumes wf: "ty_wf t" "ty_size t \<noteq> 0" and hw0: "heap_wf h0"
  shows "reach t h0 v h \<Longrightarrow> vec_inv t v h \<and> heap_wf h \<and> drop_log h = drop_log h0
           \<and> cap_shape (unat (capacity v)) (unat (length_v v))"
proof (induction rule: reach.induct)
  case reach_new
  show ?case using hw0 new_v_inv [of t h0] by (simp add: cap_shape_def new_v_def)
next
  case (reach_push v h x v' h')
  then have inv: "vec_inv t v h" and hw: "heap_wf h" by simp_all
  note one = push_ok [OF wf inv hw reach_push.hyps(2)]
  with reach_push.IH push_cap_shape [OF wf inv hw reach_push.hyps(2)] show ?case
    by simp
qed

lemma reach_push_all:
  "reach t h0 v h \<Longrightarrow> push_all t xs v h = Inr (v', h') \<Longrightarrow> reach t h0 v' h'"
proof (induction xs arbitrary: v h)
  case Nil
  then show ?case by simp
next
  case (Cons x xs)
  from Cons.prems(2) obtain v1 h1 where p: "push t x v h = Inr (v1, h1)"
      and r: "push_all t xs v1 h1 = Inr (v', h')"
    by (auto split: sum.splits)
  from reach.reach_push [OF Cons.prems(1) p] r show ?case by (rule Cons.IH)
qed

text \<open>Potential of the doubling argument: the slots beyond the first 4.\<close>

lemma push_all_cost_potential:
  assumes wf: "ty_wf t" "ty_size t \<noteq> 0"
  shows "vec_inv t v h \<Longrightarrow> heap_wf h \<Longrightarrow> (capacity v = 0 \<or> 4 \<le> unat (capacity v)) \<Longrightarrow>
         push_all t xs v h = Inr (v', h') \<Longrightarrow>
         (unat (capacity v) - 4) + push_all_cost t xs v h \<le> unat (capacity v') - 4
         \<and> (capacity v' = 0 \<or> 4 \<le> unat (capacity v'))"
proof (induction xs arbitrary: v h)
  case Nil
  then show ?case by simp
next
  case (Cons x xs)
  from Cons.prems(4) obtain v1 h1 where p: "push t x v h = Inr (v1, h1)"
      and r: "push_all t xs v1 h1 = Inr (v', h')"
    by (auto split: sum.splits)
  note one = push_ok [OF wf Cons.prems(1,2) p]
  have "capacity v = 0 \<Longrightarrow> length_v v = 0"
    using Cons.prems(1) by (simp add: vec_inv_def)
  then have step: "(unat (capacity v) - 4) + grow_cost v \<le> unat (capacity v1) - 4
              \<and> 4 \<le> unat (capacity v1)"
    using one Cons.prems(3) by (auto simp: grow_cost_def unat_eq_zero)
  then have "capacity v1 = 0 \<or> 4 \<le> unat (capacity v1)" by simp
  with one Cons.IH [of v1 h1] r have "(unat (capacity v1) - 4) + push_all_cost t xs v1 h1 \<le> unat (capacity v') - 4
      \<and> (capacity v' = 0 \<or> 4 \<le> unat (capacity v'))"
    by blast
  with step p show ?case by simp linarith
qed

lemma grow_room:
  assumes wf: "ty_wf t" "ty_size t \<noteq> 0"
    and mem: "unat (ty_size t) * max 4 (3 * n) \<le> A"
    and lay: "unat (ty_size t) * max 4 (2 * n) \<le> 2 ^ 63 - unat (ty_align t)"
    and acc: "avail h + unat (ty_size t) * unat (capacity v) = A"
    and full: "length_v v = capacity v" and lt: "unat (length_v v) < n"
  shows "\<exists>L. layout_array t (if capacity v = 0 then 4 else capacity v * 2) = Some L
           \<and> unat (lsize L) \<le> avail h"
proof -
  let ?s = "unat (ty_size t)" and ?c = "unat (capacity v)"
  let ?nc = "if capacity v = 0 then 4 else capacity v * 2"
  have cn: "?c < n" using full lt by simp
  have s1: "1 \<le> ?s" using wf(2) by (simp add: Suc_leI unat_gt_0)
  have "n \<le> ?s * max 4 (2 * n)" using s1 by (simp add: le_trans [OF _ mult_le_mono1 [OF s1]])
  moreover have "0 < unat (ty_align t)" using wf(1) by (simp add: ty_wf_def unat_gt_0)
  then have "2 ^ 63 - unat (ty_align t) < (2::nat) ^ 63" by simp
  ultimately have n63: "n < 2 ^ 63" using lay by linarith
  have unc: "unat ?nc = (if ?c = 0 then 4 else 2 * ?c)"
    using unat_double_no_wrap [of "capacity v"] cn n63 by (auto simp: unat_eq_zero)
  have "unat ?nc \<le> max 4 (2 * n)" using unc cn by auto
  then have "?s * unat ?nc \<le> 2 ^ 63 - unat (ty_align t)"
    using lay mult_le_mono2 [of "unat ?nc" "max 4 (2 * n)" ?s] by linarith
  then obtain L where L: "layout_array t ?nc = Some L"
    using layout_array_fits_iff [OF wf, of ?nc] by blast
  have ls: "unat (lsize L) = ?s * unat ?nc"
    using layout_array_size [OF wf(1) L] by simp
  have "?s * unat ?nc + ?s * ?c \<le> A"
  proof (cases "?c = 0")
    case True
    have m4: "?s * 4 \<le> ?s * max 4 (3 * n)" by (rule mult_le_mono2) simp
    have "?s * unat ?nc + ?s * ?c = ?s * 4" using unc True by simp
    with m4 mem show ?thesis by linarith
  next
    case False
    have "?s * unat ?nc + ?s * ?c = ?s * (3 * ?c)" using unc False by (simp add: algebra_simps)
    also have "\<dots> \<le> ?s * max 4 (3 * n)" using cn by (intro mult_le_mono2) simp
    finally show ?thesis using mem by linarith
  qed
  with L ls acc show ?thesis by auto
qed

lemma push_all_succeeds:
  assumes wf: "ty_wf t" "ty_size t \<noteq> 0"
    and mem: "unat (ty_size t) * max 4 (3 * n) \<le> A"
    and lay: "unat (ty_size t) * max 4 (2 * n) \<le> 2 ^ 63 - unat (ty_align t)"
  shows "vec_inv t v h \<Longrightarrow> heap_wf h \<Longrightarrow> cap_shape (unat (capacity v)) (unat (length_v v)) \<Longrightarrow>
         avail h + unat (ty_size t) * unat (capacity v) = A \<Longrightarrow>
         unat (length_v v) + List.length xs = n \<Longrightarrow>
         \<exists>v' h'. push_all t xs v h = Inr (v', h')"
proof (induction xs arbitrary: v h)
  case Nil
  then show ?case by simp
next
  case (Cons x xs)
  have lt: "unat (length_v v) < n" using Cons.prems(5) by simp
  have room: "length_v v < capacity v \<or>
      (\<exists>L. layout_array t (if capacity v = 0 then 4 else capacity v * 2) = Some L
           \<and> unat (lsize L) \<le> avail h)"
  proof (cases "length_v v = capacity v")
    case True
    then show ?thesis using grow_room [OF wf mem lay Cons.prems(4) True lt] by blast
  next
    case False
    then show ?thesis using Cons.prems(1) by (simp add: vec_inv_def order_less_le)
  qed
  obtain v1 h1 where p: "push t x v h = Inr (v1, h1)"
    using push_succeeds [OF wf Cons.prems(1,2) room] by blast
  note one = push_ok [OF wf Cons.prems(1,2) p]
  have cs: "cap_shape (unat (capacity v1)) (unat (length_v v1))"
    using push_cap_shape [OF wf Cons.prems(1,2) p Cons.prems(3)] .
  from one have inv1: "vec_inv t v1 h1" and hw1: "heap_wf h1"
    and l1: "unat (length_v v1) = Suc (unat (length_v v))"
    and a1: "avail h1 + unat (ty_size t) * unat (capacity v1) = avail h + unat (ty_size t) * unat (capacity v)"
    by blast+
  have "\<exists>v' h'. push_all t xs v1 h1 = Inr (v', h')"
    using Cons.IH [OF inv1 hw1 cs] a1 l1 Cons.prems(4,5) by simp
  with p show ?case by simp
qed

lemma reach_heap_shape:
  assumes wf: "ty_wf t" "ty_size t \<noteq> 0" and hw0: "heap_wf h0"
  shows "reach t h0 v h \<Longrightarrow>
         avail h + unat (ty_size t) * unat (capacity v) = avail h0
         \<and> (if capacity v = 0 then blocks h = blocks h0
            else blocks h0 (ptr v) = None \<and> blocks h = (blocks h0)(ptr v := blocks h (ptr v)))"
proof (induction rule: reach.induct)
  case reach_new
  show ?case by (simp add: new_v_def)
next
  case (reach_push v h x v' h')
  have inv: "vec_inv t v h" and hw: "heap_wf h"
    using reach_inv [OF wf hw0 reach_push.hyps(1)] by simp_all
  note one = push_ok [OF wf inv hw reach_push.hyps(2)]
  note fr = push_frame [OF wf inv hw reach_push.hyps(2)]
  have le': "unat (length_v v') \<le> unat (capacity v')"
    using one by (simp add: vec_inv_def word_le_nat_alt)
  have nz': "capacity v' \<noteq> 0"
    using le' one by auto
  have sh: "if capacity v = 0 then blocks h = blocks h0
            else blocks h0 (ptr v) = None \<and> blocks h = (blocks h0)(ptr v := blocks h (ptr v))"
    using reach_push.IH by blast
  have below: "blocks h q = blocks h0 q" if "capacity v = 0 \<or> q \<noteq> ptr v" for q
  proof (cases "capacity v = 0")
    case True
    with sh show ?thesis by simp
  next
    case False
    with that have "q \<noteq> ptr v" by simp
    with False sh show ?thesis by (metis fun_upd_other)
  qed
  have old: "capacity v \<noteq> 0 \<Longrightarrow> blocks h0 (ptr v) = None"
    using sh by simp
  have outside: "blocks h' q = blocks h0 q" if q: "q \<noteq> ptr v'" for q
  proof -
    have "blocks h' q = (if capacity v \<noteq> 0 \<and> q = ptr v then None else blocks h q)"
      using fr q by blast
    then show ?thesis
      using below old by (cases "capacity v \<noteq> 0 \<and> q = ptr v") auto
  qed
  have fresh: "blocks h0 (ptr v') = None"
  proof -
    have "(capacity v \<noteq> 0 \<and> ptr v' = ptr v) \<or> blocks h (ptr v') = None"
      using fr by (rule conjunct2)
    then show ?thesis
      using below old by (metis)
  qed
  have "blocks h' = (blocks h0)(ptr v' := blocks h' (ptr v'))"
    using outside by (auto simp: fun_eq_iff)
  moreover have "avail h' + unat (ty_size t) * unat (capacity v') = avail h0"
  proof -
    have a1: "avail h' + unat (ty_size t) * unat (capacity v') = avail h + unat (ty_size t) * unat (capacity v)"
      using one by blast
    have a0: "avail h + unat (ty_size t) * unat (capacity v) = avail h0"
      using reach_push.IH by (rule conjunct1)
    from a1 a0 show ?thesis by simp
  qed
  ultimately show ?case using fresh nz' by simp
qed

lemma reach_drop_restores:
  assumes wf: "ty_wf t" "ty_size t \<noteq> 0" and hw0: "heap_wf h0" and r: "reach t h0 v h"
  shows "drop_v t v h = Inr (h\<lparr>blocks := blocks h0, avail := avail h0\<rparr>)"
proof -
  have inv: "vec_inv t v h" using reach_inv [OF wf hw0 r] by simp
  note sh = reach_heap_shape [OF wf hw0 r]
  show ?thesis
  proof (cases "capacity v = 0")
    case True
    with sh have "h\<lparr>blocks := blocks h0, avail := avail h0\<rparr> = h" by simp
    with True show ?thesis using drop_v_ok [OF wf inv] by simp
  next
    case False
    with sh have "(blocks h)(ptr v := None) = blocks h0"
      by (metis fun_upd_idem fun_upd_upd)
    with False sh show ?thesis using drop_v_ok [OF wf inv] by simp
  qed
qed

end
