(* ===== verification/Client.thy ===== *)
theory Client
  imports Runs
begin

text \<open>
  Client programs: any number of vectors, named by \<open>nat\<close>, living on one heap, and
  any interleaving of \<open>Vector::new\<close>, \<open>push\<close> and the drop at the end of a
  vector's scope.  One step is one such call, as an inductive relation labelled
  with the call; which vector is used next is the client's choice.  The
  abstraction maps each live vector to its list of elements.  The lemmas show that
  every step keeps every vector valid, the regions pairwise distinct and the byte
  budget accounted for, and that each step acts on the abstraction as the
  corresponding operation on lists.
\<close>

section \<open>Systems of vectors\<close>

datatype 'a client_op = Op_new nat | Op_push nat 'a | Op_drop nat

record 'a sys =
  vecs :: "nat \<rightharpoonup> vector"
  mem :: "'a heap"

inductive sys_step :: "elem_ty \<Rightarrow> 'a sys \<Rightarrow> 'a client_op \<Rightarrow> 'a sys \<Rightarrow> bool" for t where
  step_new: "vecs s i = None \<Longrightarrow>
     sys_step t s (Op_new i) (s\<lparr>vecs := (vecs s)(i \<mapsto> new_v t)\<rparr>)"
| step_push: "vecs s i = Some v \<Longrightarrow> push t x v (mem s) = Inr (v', h') \<Longrightarrow>
     sys_step t s (Op_push i x) (s\<lparr>vecs := (vecs s)(i \<mapsto> v'), mem := h'\<rparr>)"
| step_drop: "vecs s i = Some v \<Longrightarrow> drop_v t v (mem s) = Inr h' \<Longrightarrow>
     sys_step t s (Op_drop i) (s\<lparr>vecs := (vecs s)(i := None), mem := h'\<rparr>)"

inductive sys_steps :: "elem_ty \<Rightarrow> 'a sys \<Rightarrow> 'a client_op list \<Rightarrow> 'a sys \<Rightarrow> bool" for t where
  steps_nil: "sys_steps t s [] s"
| steps_cons: "sys_step t s c s1 \<Longrightarrow> sys_steps t s1 cs s' \<Longrightarrow> sys_steps t s (c # cs) s'"

inductive_cases sys_step_newE: "sys_step t s (Op_new i) s'"
inductive_cases sys_step_pushE: "sys_step t s (Op_push i x) s'"
inductive_cases sys_step_dropE: "sys_step t s (Op_drop i) s'"
inductive_simps sys_steps_nil_iff: "sys_steps t s [] s'"
inductive_simps sys_steps_cons_iff: "sys_steps t s (c # cs) s'"

text \<open>
  The same step as a function, for running concrete client programs; \<open>None\<close> is
  a call on a name that is not (or already) bound, or a call that does not return.
\<close>

fun sys_exec :: "elem_ty \<Rightarrow> 'a sys \<Rightarrow> 'a client_op \<Rightarrow> 'a sys option" where
  "sys_exec t s (Op_new i) =
     (if vecs s i = None then Some (s\<lparr>vecs := (vecs s)(i \<mapsto> new_v t)\<rparr>) else None)"
| "sys_exec t s (Op_push i x) =
     (case vecs s i of None \<Rightarrow> None
      | Some v \<Rightarrow> (case push t x v (mem s) of Inl _ \<Rightarrow> None
                  | Inr (v', h') \<Rightarrow> Some (s\<lparr>vecs := (vecs s)(i \<mapsto> v'), mem := h'\<rparr>)))"
| "sys_exec t s (Op_drop i) =
     (case vecs s i of None \<Rightarrow> None
      | Some v \<Rightarrow> (case drop_v t v (mem s) of Inl _ \<Rightarrow> None
                  | Inr h' \<Rightarrow> Some (s\<lparr>vecs := (vecs s)(i := None), mem := h'\<rparr>)))"

fun sys_run :: "elem_ty \<Rightarrow> 'a sys \<Rightarrow> 'a client_op list \<Rightarrow> 'a sys option" where
  "sys_run t s [] = Some s"
| "sys_run t s (c # cs) = (case sys_exec t s c of None \<Rightarrow> None | Some s1 \<Rightarrow> sys_run t s1 cs)"

definition sys0 :: "'a heap \<Rightarrow> 'a sys" where
  "sys0 h = \<lparr>vecs = Map.empty, mem = h\<rparr>"

text \<open>The abstract machine: named lists, and the list operation of each call.\<close>

fun abs_step :: "'a client_op \<Rightarrow> (nat \<rightharpoonup> 'a list) \<Rightarrow> (nat \<rightharpoonup> 'a list) option" where
  "abs_step (Op_new i) m = (if m i = None then Some (m(i \<mapsto> [])) else None)"
| "abs_step (Op_push i x) m = (case m i of None \<Rightarrow> None | Some xs \<Rightarrow> Some (m(i \<mapsto> xs @ [x])))"
| "abs_step (Op_drop i) m = (if m i = None then None else Some (m(i := None)))"

fun abs_run :: "'a client_op list \<Rightarrow> (nat \<rightharpoonup> 'a list) \<Rightarrow> (nat \<rightharpoonup> 'a list) option" where
  "abs_run [] m = Some m"
| "abs_run (c # cs) m = (case abs_step c m of None \<Rightarrow> None | Some m' \<Rightarrow> abs_run cs m')"

definition sys_abs :: "'a sys \<Rightarrow> nat \<rightharpoonup> 'a list" where
  "sys_abs s = (\<lambda>i. map_option (\<lambda>v. contents v (mem s)) (vecs s i))"

definition regions_disjoint :: "'a sys \<Rightarrow> bool" where
  "regions_disjoint s \<longleftrightarrow> (\<forall>i j v w. i \<noteq> j \<longrightarrow> vecs s i = Some v \<longrightarrow> vecs s j = Some w \<longrightarrow>
      capacity v \<noteq> 0 \<longrightarrow> capacity w \<noteq> 0 \<longrightarrow> ptr v \<noteq> ptr w)"

definition sys_inv :: "elem_ty \<Rightarrow> 'a sys \<Rightarrow> bool" where
  "sys_inv t s \<longleftrightarrow> heap_wf (mem s) \<and> finite (dom (vecs s))
     \<and> (\<forall>i v. vecs s i = Some v \<longrightarrow> vec_inv t v (mem s)) \<and> regions_disjoint s"

text \<open>Bytes held by the live vectors' buffers.\<close>

definition live_bytes :: "elem_ty \<Rightarrow> 'a sys \<Rightarrow> nat" where
  "live_bytes t s = (\<Sum>i\<in>dom (vecs s). unat (ty_size t) * unat (capacity (the (vecs s i))))"

text \<open>
  Ownership of memory: an address is owned when a live vector with a buffer points
  to it.  The frame property relative to the initial heap \<open>h0\<close>: every block not
  owned is as it was in \<open>h0\<close>, and every owned block was not live in \<open>h0\<close>.
\<close>

definition owned :: "'a sys \<Rightarrow> addr \<Rightarrow> bool" where
  "owned s q \<longleftrightarrow> (\<exists>i v. vecs s i = Some v \<and> capacity v \<noteq> 0 \<and> ptr v = q)"

definition sys_frame :: "'a heap \<Rightarrow> 'a sys \<Rightarrow> bool" where
  "sys_frame h0 s \<longleftrightarrow> (\<forall>q. \<not> owned s q \<longrightarrow> blocks (mem s) q = blocks h0 q)
                       \<and> (\<forall>q. owned s q \<longrightarrow> blocks h0 q = None)"

section \<open>Lemmas\<close>

lemma drop_v_frame:
  assumes wf: "ty_wf t" "ty_size t \<noteq> 0" and inv: "vec_inv t v h" and d: "drop_v t v h = Inr h'"
  shows "blocks h' = (if capacity v = 0 then blocks h else (blocks h)(ptr v := None))
         \<and> (heap_wf h \<longrightarrow> heap_wf h')
         \<and> avail h' = avail h + unat (ty_size t) * unat (capacity v)"
  using drop_v_ok [OF wf inv] d by (auto simp: heap_wf_def dom_def)

lemma push_other:
  assumes wf: "ty_wf t" "ty_size t \<noteq> 0" and inv: "vec_inv t v h" and hw: "heap_wf h"
    and p: "push t x v h = Inr (v', h')"
    and w: "vec_inv t w h" "capacity w \<noteq> 0" and d: "capacity v \<noteq> 0 \<longrightarrow> ptr w \<noteq> ptr v"
  shows "ptr w \<noteq> ptr v' \<and> blocks h' (ptr w) = blocks h (ptr w)"
proof -
  obtain b where "blocks h (ptr w) = Some b"
    using w by (auto elim: vec_inv_block)
  moreover note fr = push_frame [OF wf inv hw p]
  ultimately have ne: "ptr w \<noteq> ptr v'"
    using d by auto
  then have "blocks h' (ptr w) = (if capacity v \<noteq> 0 \<and> ptr w = ptr v then None else blocks h (ptr w))"
    using fr by blast
  with ne d show ?thesis by auto
qed

lemma sum_dom_update:
  assumes "finite (dom m)" "m i = Some v"
  shows "(\<Sum>j\<in>dom (m(i \<mapsto> v')). g (the ((m(i \<mapsto> v')) j))) + g v
         = (\<Sum>j\<in>dom m. g (the (m j))) + g v'"
proof -
  have d: "dom (m(i \<mapsto> v')) = dom m" using assms(2) by auto
  have "(\<Sum>j\<in>dom m. g (the ((m(i \<mapsto> v')) j))) = g v' + (\<Sum>j\<in>dom m - {i}. g (the (m j)))"
    using assms by (simp add: sum.remove [of _ i] domI)
  moreover have "(\<Sum>j\<in>dom m. g (the (m j))) = g v + (\<Sum>j\<in>dom m - {i}. g (the (m j)))"
    using assms by (simp add: sum.remove [of _ i] domI)
  ultimately show ?thesis
    unfolding d by (simp add: ac_simps)
qed

lemma sum_dom_delete:
  assumes "finite (dom m)" "m i = Some v"
  shows "(\<Sum>j\<in>dom (m(i := None)). g (the (m j))) + g v = (\<Sum>j\<in>dom m. g (the (m j)))"
proof -
  have "dom (m(i := None)) = dom m - {i}" by auto
  then show ?thesis using assms by (simp add: sum.remove [of _ i] domI add.commute)
qed

lemma sum_dom_insert:
  assumes "finite (dom m)" "m i = None"
  shows "(\<Sum>j\<in>dom (m(i \<mapsto> v)). g (the ((m(i \<mapsto> v)) j))) = g v + (\<Sum>j\<in>dom m. g (the (m j)))"
proof -
  have "i \<notin> dom m" using assms by auto
  moreover have "(\<Sum>j\<in>dom m. g (the ((m(i \<mapsto> v)) j))) = (\<Sum>j\<in>dom m. g (the (m j)))"
    using \<open>i \<notin> dom m\<close> by (intro sum.cong) auto
  ultimately show ?thesis using assms by simp
qed

lemma vec_frame:
  assumes "capacity w \<noteq> 0 \<longrightarrow> blocks h' (ptr w) = blocks h (ptr w)"
  shows "vec_inv t w h' = vec_inv t w h \<and> contents w h' = contents w h"
  using assms by (cases "capacity w = 0") (simp_all add: vec_inv_def contents_def)

lemma sys_invD:
  assumes "sys_inv t s"
  shows "heap_wf (mem s)" "finite (dom (vecs s))"
    "vecs s i = Some v \<Longrightarrow> vec_inv t v (mem s)"
    "i \<noteq> j \<Longrightarrow> vecs s i = Some v \<Longrightarrow> vecs s j = Some w \<Longrightarrow> capacity v \<noteq> 0 \<Longrightarrow>
       capacity w \<noteq> 0 \<Longrightarrow> ptr v \<noteq> ptr w"
  using assms by (auto simp: sys_inv_def regions_disjoint_def)

text \<open>Replacing vector \<open>i\<close> by \<open>v'\<close> on a new heap: the shared part of every push step.\<close>

lemma regions_disjoint_replace:
  assumes dis: "regions_disjoint s"
    and new: "\<And>j w. j \<noteq> i \<Longrightarrow> vecs s j = Some w \<Longrightarrow> capacity w \<noteq> 0 \<Longrightarrow> capacity v' \<noteq> 0 \<Longrightarrow>
                 ptr w \<noteq> ptr v'"
  shows "regions_disjoint (s\<lparr>vecs := (vecs s)(i \<mapsto> v'), mem := h'\<rparr>)"
  unfolding regions_disjoint_def
proof (intro allI impI)
  fix j k w u assume jk: "j \<noteq> k" and j: "vecs (s\<lparr>vecs := (vecs s)(i \<mapsto> v'), mem := h'\<rparr>) j = Some w"
    and k: "vecs (s\<lparr>vecs := (vecs s)(i \<mapsto> v'), mem := h'\<rparr>) k = Some u"
    and cw: "capacity w \<noteq> 0" and cu: "capacity u \<noteq> 0"
  show "ptr w \<noteq> ptr u"
  proof (cases "j = i \<or> k = i")
    case True
    then show ?thesis using jk j k cw cu new [of k u] new [of j w] by (auto split: if_splits)
  next
    case False
    then show ?thesis using jk j k cw cu dis by (auto simp: regions_disjoint_def)
  qed
qed

lemma replace_others:
  assumes inv: "\<And>j w. vecs s j = Some w \<Longrightarrow> vec_inv t w (mem s)"
    and vi: "vecs s i = Some v" and iv': "vec_inv t v' h'"
    and other: "\<And>j w. j \<noteq> i \<Longrightarrow> vecs s j = Some w \<Longrightarrow> capacity w \<noteq> 0 \<Longrightarrow>
                   blocks h' (ptr w) = blocks (mem s) (ptr w)"
  defines "s' \<equiv> s\<lparr>vecs := (vecs s)(i \<mapsto> v'), mem := h'\<rparr>"
  shows "(\<forall>j w. vecs s' j = Some w \<longrightarrow> vec_inv t w (mem s'))
         \<and> sys_abs s' = (sys_abs s)(i \<mapsto> contents v' h')"
proof -
  have fr: "vec_inv t w h' = vec_inv t w (mem s) \<and> contents w h' = contents w (mem s)"
    if "j \<noteq> i" "vecs s j = Some w" for j w
    using other [OF that] vec_frame [of w h' "mem s" t] by blast
  have "\<forall>j w. vecs s' j = Some w \<longrightarrow> vec_inv t w (mem s')"
    using fr inv iv' by (auto simp: s'_def)
  moreover have "sys_abs s' = (sys_abs s)(i \<mapsto> contents v' h')"
    using fr by (auto simp: s'_def sys_abs_def fun_eq_iff intro!: option.map_cong)
  ultimately show ?thesis by blast
qed

lemma sys_step_new_ok:
  assumes inv: "sys_inv t s" and fresh: "vecs s i = None"
  defines "s' \<equiv> s\<lparr>vecs := (vecs s)(i \<mapsto> new_v t)\<rparr>"
  shows "sys_inv t s' \<and> sys_abs s' = (sys_abs s)(i \<mapsto> [])
         \<and> avail (mem s') + live_bytes t s' = avail (mem s) + live_bytes t s"
proof -
  have c0: "capacity (new_v t) = 0" by (simp add: new_v_def)
  have "sys_inv t s'"
    using inv new_v_inv [of t "mem s"] c0
    by (auto simp: s'_def sys_inv_def regions_disjoint_def)
  moreover have "sys_abs s' = (sys_abs s)(i \<mapsto> [])"
    by (auto simp: s'_def sys_abs_def)
  moreover have "live_bytes t s' = live_bytes t s"
    using sum_dom_insert [OF sys_invD(2) [OF inv] fresh, where g="\<lambda>v. unat (ty_size t) * unat (capacity v)"] c0
    by (simp add: s'_def live_bytes_def)
  ultimately show ?thesis by (simp add: s'_def)
qed

lemma sys_step_push_ok:
  assumes wf: "ty_wf t" "ty_size t \<noteq> 0" and inv: "sys_inv t s"
    and vi: "vecs s i = Some v" and p: "push t x v (mem s) = Inr (v', h')"
  defines "s' \<equiv> s\<lparr>vecs := (vecs s)(i \<mapsto> v'), mem := h'\<rparr>"
  shows "sys_inv t s' \<and> sys_abs s' = (sys_abs s)(i \<mapsto> contents v (mem s) @ [x])
         \<and> avail (mem s') + live_bytes t s' = avail (mem s) + live_bytes t s
         \<and> drop_log (mem s') = drop_log (mem s)"
proof -
  have iv: "vec_inv t v (mem s)" and hw: "heap_wf (mem s)" and fin: "finite (dom (vecs s))"
    using sys_invD [OF inv] vi by auto
  note ok = push_ok [OF wf iv hw p]
  have other: "ptr w \<noteq> ptr v' \<and> blocks h' (ptr w) = blocks (mem s) (ptr w)"
    if "j \<noteq> i" "vecs s j = Some w" "capacity w \<noteq> 0" for j w
  proof -
    have "capacity v \<noteq> 0 \<longrightarrow> ptr w \<noteq> ptr v"
      using sys_invD(4) [OF inv that(1) that(2) vi] that(3) by blast
    then show ?thesis using push_other [OF wf iv hw p sys_invD(3) [OF inv that(2)] that(3)] by blast
  qed
  have iv': "vec_inv t v' h'" using ok by blast
  have ob: "blocks h' (ptr w) = blocks (mem s) (ptr w)"
    if "j \<noteq> i" "vecs s j = Some w" "capacity w \<noteq> 0" for j w
    using other [OF that] by blast
  note rep = replace_others [OF sys_invD(3) [OF inv] vi iv' ob]
  have "regions_disjoint s'"
    unfolding s'_def using inv other by (intro regions_disjoint_replace) (auto simp: sys_inv_def)
  then have "sys_inv t s'"
    using ok rep fin by (simp add: s'_def sys_inv_def)
  moreover have "live_bytes t s' + unat (ty_size t) * unat (capacity v)
                 = live_bytes t s + unat (ty_size t) * unat (capacity v')"
    using sum_dom_update [OF fin vi, where v'=v' and g="\<lambda>v. unat (ty_size t) * unat (capacity v)"]
    by (simp add: s'_def live_bytes_def)
  moreover have "avail h' + unat (ty_size t) * unat (capacity v')
                 = avail (mem s) + unat (ty_size t) * unat (capacity v)"
    and "contents v' h' = contents v (mem s) @ [x]" and "drop_log h' = drop_log (mem s)"
    using ok by blast+
  ultimately show ?thesis
    using rep unfolding s'_def by simp
qed

lemma sys_step_drop_ok:
  assumes wf: "ty_wf t" "ty_size t \<noteq> 0" and inv: "sys_inv t s"
    and vi: "vecs s i = Some v" and d: "drop_v t v (mem s) = Inr h'"
  defines "s' \<equiv> s\<lparr>vecs := (vecs s)(i := None), mem := h'\<rparr>"
  shows "sys_inv t s' \<and> sys_abs s' = (sys_abs s)(i := None)
         \<and> avail (mem s') + live_bytes t s' = avail (mem s) + live_bytes t s
         \<and> drop_log (mem s') = drop_log (mem s)"
proof -
  have iv: "vec_inv t v (mem s)" and hw: "heap_wf (mem s)" and fin: "finite (dom (vecs s))"
    using sys_invD [OF inv] vi by auto
  note fr = drop_v_frame [OF wf iv d]
  have other: "vec_inv t w h' = vec_inv t w (mem s) \<and> contents w h' = contents w (mem s)"
    if "j \<noteq> i" "vecs s j = Some w" for j w
  proof -
    have "capacity w \<noteq> 0 \<longrightarrow> blocks h' (ptr w) = blocks h (ptr w)" if "h = mem s" for h
      using sys_invD(4) [OF inv \<open>j \<noteq> i\<close> \<open>vecs s j = Some w\<close> vi] fr that by auto
    then show ?thesis using vec_frame by blast
  qed
  have "sys_inv t s'"
    using inv fr hw other by (auto simp: s'_def sys_inv_def regions_disjoint_def split: if_splits)
  moreover have "sys_abs s' = (sys_abs s)(i := None)"
    using other by (auto simp: s'_def sys_abs_def fun_eq_iff intro!: option.map_cong)
  moreover have "live_bytes t s' + unat (ty_size t) * unat (capacity v) = live_bytes t s"
    using sum_dom_delete [OF fin vi, where g="\<lambda>v. unat (ty_size t) * unat (capacity v)"]
    by (simp add: s'_def live_bytes_def)
  moreover have "avail h' = avail (mem s) + unat (ty_size t) * unat (capacity v)"
    using fr by blast
  moreover have "drop_log h' = drop_log (mem s)"
    using drop_v_log [OF d] .
  ultimately show ?thesis
    unfolding s'_def by simp
qed

lemma sys_step_iff_exec: "sys_step t s c s' \<longleftrightarrow> sys_exec t s c = Some s'"
proof
  assume "sys_step t s c s'"
  then show "sys_exec t s c = Some s'"
    by (induction rule: sys_step.induct) auto
next
  assume "sys_exec t s c = Some s'"
  then show "sys_step t s c s'"
    by (cases c) (auto intro: sys_step.intros split: if_splits option.splits sum.splits)
qed

lemma sys_steps_iff_run: "sys_steps t s cs s' \<longleftrightarrow> sys_run t s cs = Some s'"
  by (induction cs arbitrary: s)
     (auto simp: sys_steps_nil_iff sys_steps_cons_iff sys_step_iff_exec split: option.splits)

lemma sys0_inv: "heap_wf h \<Longrightarrow> sys_inv t (sys0 h)"
  by (simp add: sys0_def sys_inv_def regions_disjoint_def)

lemma sys0_abs [simp]: "sys_abs (sys0 h) = Map.empty" and sys0_live [simp]: "live_bytes t (sys0 h) = 0"
  and sys0_mem [simp]: "mem (sys0 h) = h"
  by (simp_all add: sys0_def sys_abs_def live_bytes_def)

lemma sys_step_ok:
  assumes wf: "ty_wf t" "ty_size t \<noteq> 0" and inv: "sys_inv t s" and st: "sys_step t s c s'"
  shows "sys_inv t s' \<and> abs_step c (sys_abs s) = Some (sys_abs s')
         \<and> avail (mem s') + live_bytes t s' = avail (mem s) + live_bytes t s
         \<and> drop_log (mem s') = drop_log (mem s)"
  using st
proof cases
  case (step_new i)
  then show ?thesis
    using sys_step_new_ok [OF inv step_new(3)] by (auto simp: sys_abs_def)
next
  case (step_push i v x v' h')
  then show ?thesis
    using sys_step_push_ok [OF wf inv step_push(3,4)] by (auto simp: sys_abs_def)
next
  case (step_drop i v h')
  then show ?thesis
    using sys_step_drop_ok [OF wf inv step_drop(3,4)] by (auto simp: sys_abs_def)
qed

lemma sys_steps_ok:
  assumes wf: "ty_wf t" "ty_size t \<noteq> 0"
  shows "sys_steps t s cs s' \<Longrightarrow> sys_inv t s \<Longrightarrow>
         sys_inv t s' \<and> abs_run cs (sys_abs s) = Some (sys_abs s')
         \<and> avail (mem s') + live_bytes t s' = avail (mem s) + live_bytes t s
         \<and> drop_log (mem s') = drop_log (mem s)"
proof (induction rule: sys_steps.induct)
  case (steps_nil s)
  then show ?case by simp
next
  case (steps_cons s c s1 cs s')
  note one = sys_step_ok [OF wf steps_cons.prems steps_cons.hyps(1)]
  with steps_cons.IH show ?case by simp
qed

lemma push_error_not_ub:
  assumes wf: "ty_wf t" "ty_size t \<noteq> 0" and inv: "vec_inv t v h" and hw: "heap_wf h"
    and p: "push t x v h = Inl e"
  shows "length_v v = capacity v \<and> \<not> is_ub e"
proof -
  have g: "length_v v = capacity v" "grow t v h = Inl e"
    using push_error [OF wf inv hw p] by blast+
  have "\<not> is_ub e"
    using grow_cases [OF wf inv hw] g(2) by (auto split: option.splits if_splits)
  with g show ?thesis by blast
qed

lemma sys_progress:
  assumes wf: "ty_wf t" "ty_size t \<noteq> 0" and inv: "sys_inv t s"
    and a: "abs_step c (sys_abs s) \<noteq> None"
  shows "(\<exists>s'. sys_step t s c s') \<or>
         (\<exists>i x v e. c = Op_push i x \<and> vecs s i = Some v \<and> length_v v = capacity v
                   \<and> push t x v (mem s) = Inl e \<and> \<not> is_ub e)"
proof (cases c)
  case (Op_new i)
  then show ?thesis using a by (auto simp: sys_abs_def intro: step_new split: if_splits)
next
  case (Op_push i x)
  then obtain v where vi: "vecs s i = Some v"
    using a by (auto simp: sys_abs_def split: option.splits)
  have iv: "vec_inv t v (mem s)" and hw: "heap_wf (mem s)"
    using sys_invD [OF inv] vi by auto
  show ?thesis
  proof (cases "push t x v (mem s)")
    case (Inl e)
    then show ?thesis using push_error_not_ub [OF wf iv hw Inl] Op_push vi by blast
  next
    case (Inr r)
    then show ?thesis using Op_push vi by (cases r) (auto intro: step_push)
  qed
next
  case (Op_drop i)
  then obtain v where vi: "vecs s i = Some v"
    using a by (auto simp: sys_abs_def split: if_splits)
  have "vec_inv t v (mem s)"
    using sys_invD [OF inv] vi by auto
  then show ?thesis using drop_v_ok [OF wf] Op_drop vi by (blast intro: step_drop)
qed

lemma owned_block:
  assumes "sys_inv t s" "owned s q"
  shows "blocks (mem s) q \<noteq> None"
proof -
  obtain i v where "vecs s i = Some v" "capacity v \<noteq> 0" "ptr v = q"
    using assms(2) by (auto simp: owned_def)
  then show ?thesis
    using sys_invD(3) [OF assms(1)] by (metis vec_inv_block option.distinct(1))
qed

lemma owned_other:
  assumes vi: "vecs s i = Some v" and o: "owned s q" and n: "\<not> (capacity v \<noteq> 0 \<and> q = ptr v)"
  shows "\<exists>j w. j \<noteq> i \<and> vecs s j = Some w \<and> capacity w \<noteq> 0 \<and> ptr w = q"
proof -
  obtain j w where w: "vecs s j = Some w" "capacity w \<noteq> 0" "ptr w = q"
    using o by (auto simp: owned_def)
  have "j \<noteq> i" using w vi n by auto
  with w show ?thesis by blast
qed

lemma sys_step_frame_new:
  assumes "sys_frame h0 s" "vecs s i = None"
  shows "sys_frame h0 (s\<lparr>vecs := (vecs s)(i \<mapsto> new_v t)\<rparr>)"
proof -
  have "owned (s\<lparr>vecs := (vecs s)(i \<mapsto> new_v t)\<rparr>) q = owned s q" for q
  proof
    assume "owned (s\<lparr>vecs := (vecs s)(i \<mapsto> new_v t)\<rparr>) q"
    then obtain j w where "((vecs s)(i \<mapsto> new_v t)) j = Some w" "capacity w \<noteq> 0" "ptr w = q"
      by (auto simp: owned_def)
    then show "owned s q" unfolding owned_def
      by (cases "j = i") (auto simp: new_v_def)
  next
    assume "owned s q"
    then obtain j w where "vecs s j = Some w" "capacity w \<noteq> 0" "ptr w = q"
      by (auto simp: owned_def)
    moreover then have "j \<noteq> i" using assms(2) by auto
    ultimately show "owned (s\<lparr>vecs := (vecs s)(i \<mapsto> new_v t)\<rparr>) q" unfolding owned_def
      by (intro exI [of _ j] exI [of _ w]) simp
  qed
  then show ?thesis using assms(1) by (simp add: sys_frame_def)
qed

lemma sys_step_frame_push:
  assumes wf: "ty_wf t" "ty_size t \<noteq> 0" and inv: "sys_inv t s" and fr: "sys_frame h0 s"
    and vi: "vecs s i = Some v" and p: "push t x v (mem s) = Inr (v', h')"
  shows "sys_frame h0 (s\<lparr>vecs := (vecs s)(i \<mapsto> v'), mem := h'\<rparr>)"
proof -
  let ?s' = "s\<lparr>vecs := (vecs s)(i \<mapsto> v'), mem := h'\<rparr>"
  have iv: "vec_inv t v (mem s)" and hw: "heap_wf (mem s)"
    using sys_invD [OF inv] vi by auto
  note pf = push_frame [OF wf iv hw p]
  have "length_v v' \<noteq> 0"
    using push_ok [OF wf iv hw p] by (metis nat.distinct(1) unat_0)
  then have cv': "capacity v' \<noteq> 0"
    using push_ok [OF wf iv hw p] by (auto simp: vec_inv_def)
  have os: "owned ?s' q \<longleftrightarrow> q = ptr v' \<or> (\<exists>j w. j \<noteq> i \<and> vecs s j = Some w \<and> capacity w \<noteq> 0 \<and> ptr w = q)" for q
  proof
    assume "owned ?s' q"
    then obtain j w where "((vecs s)(i \<mapsto> v')) j = Some w" "capacity w \<noteq> 0" "ptr w = q"
      by (auto simp: owned_def)
    then show "q = ptr v' \<or> (\<exists>j w. j \<noteq> i \<and> vecs s j = Some w \<and> capacity w \<noteq> 0 \<and> ptr w = q)"
      by (cases "j = i") auto
  next
    assume "q = ptr v' \<or> (\<exists>j w. j \<noteq> i \<and> vecs s j = Some w \<and> capacity w \<noteq> 0 \<and> ptr w = q)"
    then show "owned ?s' q"
    proof
      assume "q = ptr v'"
      then show ?thesis using cv' unfolding owned_def by (intro exI [of _ i] exI [of _ v']) simp
    next
      assume "\<exists>j w. j \<noteq> i \<and> vecs s j = Some w \<and> capacity w \<noteq> 0 \<and> ptr w = q"
      then obtain j w where "j \<noteq> i" "vecs s j = Some w" "capacity w \<noteq> 0" "ptr w = q" by blast
      then show ?thesis unfolding owned_def by (intro exI [of _ j] exI [of _ w]) simp
    qed
  qed
  have ov: "capacity v \<noteq> 0 \<Longrightarrow> owned s (ptr v)" using vi by (auto simp: owned_def)
  have other: "\<exists>j w. j \<noteq> i \<and> vecs s j = Some w \<and> capacity w \<noteq> 0 \<and> ptr w = q"
    if "owned s q" "\<not> (capacity v \<noteq> 0 \<and> q = ptr v)" for q
    using owned_other [OF vi that] .
  have new_fresh: "blocks h0 (ptr v') = None"
  proof (cases "capacity v \<noteq> 0 \<and> ptr v' = ptr v")
    case True
    then show ?thesis using fr ov by (auto simp: sys_frame_def)
  next
    case False
    then have "blocks (mem s) (ptr v') = None" using pf by blast
    then have "\<not> owned s (ptr v')" using owned_block [OF inv] by blast
    then show ?thesis using fr \<open>blocks (mem s) (ptr v') = None\<close> by (auto simp: sys_frame_def)
  qed
  have "blocks h' q = blocks h0 q" if n: "\<not> owned ?s' q" for q
  proof -
    have q: "q \<noteq> ptr v'" using n os by blast
    show ?thesis
    proof (cases "capacity v \<noteq> 0 \<and> q = ptr v")
      case True
      then show ?thesis using pf q fr ov by (auto simp: sys_frame_def)
    next
      case False
      then have "\<not> owned s q" using other n os by blast
      then show ?thesis using pf q False fr by (auto simp: sys_frame_def)
    qed
  qed
  moreover have "blocks h0 q = None" if o: "owned ?s' q" for q
  proof -
    consider "q = ptr v'" | j w where "j \<noteq> i" "vecs s j = Some w" "capacity w \<noteq> 0" "ptr w = q"
      using o os by blast
    then show ?thesis
    proof cases
      case 1
      then show ?thesis using new_fresh by simp
    next
      case 2
      then have "owned s q" unfolding owned_def by blast
      then show ?thesis using fr by (simp add: sys_frame_def)
    qed
  qed
  ultimately show ?thesis by (simp add: sys_frame_def)
qed

lemma sys_step_frame_drop:
  assumes wf: "ty_wf t" "ty_size t \<noteq> 0" and inv: "sys_inv t s" and fr: "sys_frame h0 s"
    and vi: "vecs s i = Some v" and d: "drop_v t v (mem s) = Inr h'"
  shows "sys_frame h0 (s\<lparr>vecs := (vecs s)(i := None), mem := h'\<rparr>)"
proof -
  let ?s' = "s\<lparr>vecs := (vecs s)(i := None), mem := h'\<rparr>"
  have iv: "vec_inv t v (mem s)" using sys_invD [OF inv] vi by auto
  have bl: "blocks h' = (if capacity v = 0 then blocks (mem s) else (blocks (mem s))(ptr v := None))"
    using drop_v_frame [OF wf iv d] by blast
  have os: "owned ?s' q \<Longrightarrow> owned s q" for q by (auto simp: owned_def split: if_splits)
  have ov: "capacity v \<noteq> 0 \<Longrightarrow> owned s (ptr v)" using vi by (auto simp: owned_def)
  have "blocks h' q = blocks h0 q" if n: "\<not> owned ?s' q" for q
  proof (cases "capacity v \<noteq> 0 \<and> q = ptr v")
    case True
    then show ?thesis using bl fr ov by (auto simp: sys_frame_def)
  next
    case False
    have "\<not> owned s q"
    proof
      assume "owned s q"
      then obtain j w where "j \<noteq> i" "vecs s j = Some w" "capacity w \<noteq> 0" "ptr w = q"
        using owned_other [OF vi _ False] by blast
      then have "owned ?s' q" unfolding owned_def by (intro exI [of _ j] exI [of _ w]) simp
      with n show False ..
    qed
    then show ?thesis using bl False fr by (auto simp: sys_frame_def)
  qed
  then show ?thesis using fr os by (auto simp: sys_frame_def)
qed

lemma sys_steps_frame:
  assumes wf: "ty_wf t" "ty_size t \<noteq> 0"
  shows "sys_steps t s cs s' \<Longrightarrow> sys_inv t s \<Longrightarrow> sys_frame h0 s \<Longrightarrow> sys_frame h0 s'"
proof (induction rule: sys_steps.induct)
  case (steps_nil s)
  then show ?case by blast
next
  case (steps_cons s c s1 cs s')
  have inv1: "sys_inv t s1" using sys_step_ok [OF wf steps_cons.prems(1) steps_cons.hyps(1)] by blast
  have "sys_frame h0 s1"
    using steps_cons.hyps(1)
  proof cases
    case (step_new i)
    then show ?thesis using sys_step_frame_new [OF steps_cons.prems(2)] by simp
  next
    case (step_push i v x v' h')
    then show ?thesis using sys_step_frame_push [OF wf steps_cons.prems step_push(3,4)] by simp
  next
    case (step_drop i v h')
    then show ?thesis using sys_step_frame_drop [OF wf steps_cons.prems step_drop(3,4)] by simp
  qed
  with inv1 show ?case using steps_cons.IH by blast
qed

lemma sys0_frame: "sys_frame h0 (sys0 h0)"
  by (simp add: sys_frame_def owned_def sys0_def)

end
