(* ===== verification/Drop_Counter.thy ===== *)
theory Drop_Counter
  imports Prelude
begin

text \<open>
  The third test, \<open>test_drop_safety\<close> (\<open>src/src/Vector.rs\<close> lines 103--128).  It
  never touches \<open>Vector\<close>: it pushes ten \<open>DropCounter\<close>s, each holding a clone of
  one \<open>Rc<RefCell<usize>>\<close>, into a standard \<open>Vec\<close>, and observes the shared
  counter before and after the \<open>Vec\<close> goes out of scope.  \<open>Rc\<close>, \<open>RefCell\<close>
  and \<open>Vec\<close> are the standard library's, modelled from their documented contracts:
  an \<open>Rc\<close> allocation is a box with a strong count, a weak count (one implicit weak
  reference held by the strong ones) and the \<open>RefCell\<close>: its borrow flag (0 free,
  \<open>k > 0\<close> shared borrows, \<open>-1\<close> borrowed mutably) and its value.  \<open>Rc::clone\<close>
  increments the strong count; dropping an \<open>Rc\<close> decrements it and, at zero, drops
  the value and the implicit weak reference, freeing the box when no weak reference
  remains.  \<open>borrow\<close> panics if the cell is borrowed mutably, \<open>borrow_mut\<close> if it
  is borrowed at all, and dropping a guard gives its borrow back.  A \<open>Vec\<close> is the
  list of its elements, and dropping it drops every element, first to last.
\<close>

section \<open>Rc<RefCell<usize>>\<close>

record rc_box =
  strong :: nat
  weak :: nat
  borrow_flag :: int
  rc_value :: usize

type_synonym rc_heap = "addr \<rightharpoonup> rc_box"

text \<open>\<open>Rc::new(RefCell::new(v))\<close> at the fresh address \<open>p\<close> the allocator returns.\<close>

definition rc_new :: "addr \<Rightarrow> usize \<Rightarrow> rc_heap \<Rightarrow> rc_heap" where
  "rc_new p v h = h(p \<mapsto> \<lparr>strong = 1, weak = 1, borrow_flag = 0, rc_value = v\<rparr>)"

text \<open>\<open>Rc::clone\<close>: one more strong reference to a live box.\<close>

definition rc_clone :: "addr \<Rightarrow> rc_heap \<Rightarrow> rc_heap result" where
  "rc_clone p h =
     (case h p of
        None \<Rightarrow> Inl (UB InvalidAccess)
      | Some b \<Rightarrow> Inr (h(p \<mapsto> b\<lparr>strong := strong b + 1\<rparr>)))"

text \<open>
  Dropping an \<open>Rc\<close>: one strong reference less; the last one drops the value (a
  \<open>usize\<close>, no destructor) and the implicit weak reference, and the box is freed
  when that was the last weak reference.
\<close>

definition rc_release :: "addr \<Rightarrow> rc_heap \<Rightarrow> rc_heap result" where
  "rc_release p h =
     (case h p of
        None \<Rightarrow> Inl (UB InvalidAccess)
      | Some b \<Rightarrow>
          if 1 < strong b then Inr (h(p \<mapsto> b\<lparr>strong := strong b - 1\<rparr>))
          else if weak b \<le> 1 then Inr (h(p := None))
          else Inr (h(p \<mapsto> b\<lparr>strong := 0, weak := weak b - 1\<rparr>)))"

text \<open>\<open>RefCell::borrow\<close>: a shared borrow, refused while a mutable one is live.\<close>

definition refcell_borrow :: "addr \<Rightarrow> rc_heap \<Rightarrow> (usize \<times> rc_heap) result" where
  "refcell_borrow p h =
     (case h p of
        None \<Rightarrow> Inl (UB InvalidAccess)
      | Some b \<Rightarrow>
          if borrow_flag b < 0 then Inl (Panic BorrowErr)
          else Inr (rc_value b, h(p \<mapsto> b\<lparr>borrow_flag := borrow_flag b + 1\<rparr>)))"

text \<open>\<open>RefCell::borrow_mut\<close>: an exclusive borrow, refused while any borrow is live.\<close>

definition refcell_borrow_mut :: "addr \<Rightarrow> rc_heap \<Rightarrow> rc_heap result" where
  "refcell_borrow_mut p h =
     (case h p of
        None \<Rightarrow> Inl (UB InvalidAccess)
      | Some b \<Rightarrow>
          if borrow_flag b \<noteq> 0 then Inl (Panic BorrowMutErr)
          else Inr (h(p \<mapsto> b\<lparr>borrow_flag := -1\<rparr>)))"

text \<open>Dropping a \<open>Ref\<close> or \<open>RefMut\<close> guard: its borrow is given back.\<close>

definition borrow_end :: "addr \<Rightarrow> rc_heap \<Rightarrow> rc_heap result" where
  "borrow_end p h =
     (case h p of
        None \<Rightarrow> Inl (UB InvalidAccess)
      | Some b \<Rightarrow>
          Inr (h(p \<mapsto> b\<lparr>borrow_flag := (if borrow_flag b < 0 then 0 else borrow_flag b - 1)\<rparr>)))"

section \<open>std::vec::Vec\<close>

text \<open>Dropping a \<open>Vec\<close>: the elements' destructors run in order.\<close>

fun vec_drop_all :: "('a \<Rightarrow> 's \<Rightarrow> 's result) \<Rightarrow> 'a list \<Rightarrow> 's \<Rightarrow> 's result" where
  "vec_drop_all d [] s = Inr s"
| "vec_drop_all d (x # xs) s = (case d x s of Inl e \<Rightarrow> Inl e | Inr s' \<Rightarrow> vec_drop_all d xs s')"

section \<open>The test\<close>

text \<open>\<open>struct DropCounter(Rc<RefCell<usize>>)\<close> (line 110): the address of the box.\<close>

datatype drop_counter = DropCounter addr

text \<open>
  \<open>impl Drop for DropCounter\<close> (lines 112--116): \<open>*self.0.borrow_mut() += 1\<close> takes
  the exclusive borrow, adds one through it with the overflow check of a debug build,
  and drops the guard at the end of the statement; then the drop glue of the field
  drops the \<open>Rc\<close>.
\<close>

fun drop_counter_drop :: "drop_counter \<Rightarrow> rc_heap \<Rightarrow> rc_heap result" where
  "drop_counter_drop (DropCounter p) h =
     (case refcell_borrow_mut p h of
        Inl e \<Rightarrow> Inl e
      | Inr h1 \<Rightarrow>
          (case h1 p of
             None \<Rightarrow> Inl (UB InvalidAccess)
           | Some b \<Rightarrow>
               (case checked_add (rc_value b) 1 of
                  None \<Rightarrow> Inl (Panic AddOverflow)
                | Some v \<Rightarrow>
                    (case borrow_end p (h1(p \<mapsto> b\<lparr>rc_value := v\<rparr>)) of
                       Inl e \<Rightarrow> Inl e
                     | Inr h2 \<Rightarrow> rc_release p h2))))"

text \<open>
  \<open>for _ in 0..n { my_vec.push(DropCounter(counter.clone())); }\<close> (lines 120--122),
  with the \<open>Vec\<close> as the list of its elements.
\<close>

fun push_counters :: "addr \<Rightarrow> nat \<Rightarrow> drop_counter list \<Rightarrow> rc_heap \<Rightarrow> (drop_counter list \<times> rc_heap) result" where
  "push_counters p 0 xs h = Inr (xs, h)"
| "push_counters p (Suc n) xs h =
     (case rc_clone p h of
        Inl e \<Rightarrow> Inl e
      | Inr h1 \<Rightarrow> push_counters p n (xs @ [DropCounter p]) h1)"

text \<open>\<open>*counter.borrow()\<close> (lines 123 and 127): a shared borrow, the read, the guard dropped.\<close>

definition counter_read :: "addr \<Rightarrow> rc_heap \<Rightarrow> (usize \<times> rc_heap) result" where
  "counter_read p h =
     (case refcell_borrow p h of
        Inl e \<Rightarrow> Inl e
      | Inr (x, h1) \<Rightarrow> (case borrow_end p h1 of Inl e \<Rightarrow> Inl e | Inr h2 \<Rightarrow> Inr (x, h2)))"

text \<open>
  The inner block (lines 118--124): a new \<open>Vec\<close>, ten pushes, the counter read at
  line 123, and the drop of the \<open>Vec\<close> at the closing brace.  The result is the
  value read and the boxes after the block.
\<close>

definition drop_scope :: "addr \<Rightarrow> rc_heap \<Rightarrow> (usize \<times> rc_heap) result" where
  "drop_scope p h =
     (case push_counters p 10 [] h of
        Inl e \<Rightarrow> Inl e
      | Inr (xs, h1) \<Rightarrow>
          (case counter_read p h1 of
             Inl e \<Rightarrow> Inl e
           | Inr (x, h2) \<Rightarrow>
               (case vec_drop_all drop_counter_drop xs h2 of
                  Inl e \<Rightarrow> Inl e
                | Inr h3 \<Rightarrow> Inr (x, h3))))"

text \<open>
  The whole test (lines 104--128): \<open>Rc::new(RefCell::new(0))\<close> at the fresh address
  \<open>p\<close>; the block; the counter read at line 127; the drop of \<open>counter\<close> at the end
  of the function.  The result is the two values the assertions compare with 0 and
  10, and the boxes at the end.
\<close>

definition test_drop_safety :: "addr \<Rightarrow> rc_heap \<Rightarrow> ((usize \<times> usize) \<times> rc_heap) result" where
  "test_drop_safety p h =
     (case drop_scope p (rc_new p 0 h) of
        Inl e \<Rightarrow> Inl e
      | Inr (v1, h2) \<Rightarrow>
          (case counter_read p h2 of
             Inl e \<Rightarrow> Inl e
           | Inr (v2, h3) \<Rightarrow>
               (case rc_release p h3 of
                  Inl e \<Rightarrow> Inl e
                | Inr h4 \<Rightarrow> Inr ((v1, v2), h4))))"

section \<open>Lemmas\<close>

lemma push_counters_ok:
  "h p = Some b \<Longrightarrow>
   push_counters p n xs h = Inr (xs @ replicate n (DropCounter p), h(p \<mapsto> b\<lparr>strong := strong b + n\<rparr>))"
proof (induction n arbitrary: xs h b)
  case 0
  then show ?case by (simp add: fun_upd_idem)
next
  case (Suc n)
  let ?b' = "b\<lparr>strong := strong b + 1\<rparr>"
  have c: "rc_clone p h = Inr (h(p \<mapsto> ?b'))"
    using Suc.prems by (simp add: rc_clone_def)
  have "push_counters p n (xs @ [DropCounter p]) (h(p \<mapsto> ?b')) =
          Inr ((xs @ [DropCounter p]) @ replicate n (DropCounter p), (h(p \<mapsto> ?b'))(p \<mapsto> ?b'\<lparr>strong := strong ?b' + n\<rparr>))"
    by (rule Suc.IH) simp
  then show ?case
    using c by (simp add: replicate_append_same fun_eq_iff)
qed

lemma drop_counter_drop_step:
  assumes "h p = Some b" "borrow_flag b = 0" "1 < strong b" "unat (rc_value b) + 1 < 2 ^ 64"
  shows "drop_counter_drop (DropCounter p) h =
           Inr (h(p \<mapsto> b\<lparr>strong := strong b - 1, rc_value := rc_value b + 1\<rparr>))"
  using assms
  by (cases b) (simp add: checked_add_def rc_release_def refcell_borrow_mut_def borrow_end_def)

lemma drop_counter_drop_borrowed:
  "h p = Some b \<Longrightarrow> borrow_flag b \<noteq> 0 \<Longrightarrow>
   drop_counter_drop (DropCounter p) h = Inl (Panic BorrowMutErr)"
  by (simp add: refcell_borrow_mut_def)

lemma counter_read_ok:
  "h p = Some b \<Longrightarrow> 0 \<le> borrow_flag b \<Longrightarrow> counter_read p h = Inr (rc_value b, h)"
  by (cases b) (simp add: counter_read_def refcell_borrow_def borrow_end_def fun_upd_idem)

lemma drop_counters_ok:
  "h p = Some b \<Longrightarrow> borrow_flag b = 0 \<Longrightarrow> n < strong b \<Longrightarrow> unat (rc_value b) + n < 2 ^ 64 \<Longrightarrow>
   vec_drop_all drop_counter_drop (replicate n (DropCounter p)) h =
     Inr (h(p \<mapsto> b\<lparr>strong := strong b - n, rc_value := rc_value b + of_nat n\<rparr>))"
proof (induction n arbitrary: h b)
  case 0
  then show ?case by (cases b) (simp add: fun_upd_idem)
next
  case (Suc n)
  have ov: "unat (rc_value b) + 1 < 2 ^ 64" using Suc.prems(4) by simp
  have u: "unat (rc_value b + 1) = unat (rc_value b) + 1"
    using ov by (simp add: unat_add_lem [THEN iffD1])
  let ?b' = "b\<lparr>strong := strong b - 1, rc_value := rc_value b + 1\<rparr>"
  have "vec_drop_all drop_counter_drop (replicate n (DropCounter p)) (h(p \<mapsto> ?b')) =
        Inr ((h(p \<mapsto> ?b'))(p \<mapsto> ?b'\<lparr>strong := strong ?b' - n, rc_value := rc_value ?b' + of_nat n\<rparr>))"
    using Suc.prems u by (intro Suc.IH) auto
  then show ?case
    using drop_counter_drop_step [of h p b, OF Suc.prems(1,2) _ ov] Suc.prems(3) by (simp add: add.assoc fun_eq_iff)
qed

lemma rc_release_last:
  "h p = Some b \<Longrightarrow> strong b \<le> 1 \<Longrightarrow> weak b \<le> 1 \<Longrightarrow> rc_release p h = Inr (h(p := None))"
  by (simp add: rc_release_def)

end
