(* ===== verification/Release.thy ===== *)
theory Release
  imports Vector
begin

text \<open>
  The same source compiled as a release build: \<open>self.capacity * 2\<close> and
  \<open>self.length += 1\<close> then wrap around modulo \<open>2^64\<close> instead of panicking.
  \<open>grow_release\<close> and \<open>push_release\<close> are \<open>grow\<close> and \<open>push\<close> with the word
  operations in place of the checked ones; every other step is shared.  The lemmas
  show that on a valid vector of a non-zero-sized type the checks never fire, so
  both builds compute the same function.
\<close>

section \<open>Release-build operations\<close>

definition grow_release :: "elem_ty \<Rightarrow> vector \<Rightarrow> 'a heap \<Rightarrow> (vector \<times> 'a heap) result" where
  "grow_release t v h =
     (let new_capacity = (if capacity v = 0 then 4 else capacity v * 2) in
      case layout_array t new_capacity of
        None \<Rightarrow> Inl (Panic LayoutErr)
      | Some new_layout \<Rightarrow>
          (case (if capacity v = 0 then alloc t new_layout h
                 else case layout_array t (capacity v) of
                        None \<Rightarrow> Inl (Panic LayoutErr)
                      | Some old_layout \<Rightarrow>
                          realloc t h (ptr v) old_layout (lsize new_layout)) of
             Inl e \<Rightarrow> Inl e
           | Inr (new_ptr, h') \<Rightarrow>
               if new_ptr = 0 then Inl (AllocAbort (lsize new_layout))
               else Inr (v\<lparr>ptr := new_ptr, capacity := new_capacity\<rparr>, h')))"

definition push_release :: "elem_ty \<Rightarrow> 'a \<Rightarrow> vector \<Rightarrow> 'a heap \<Rightarrow> (vector \<times> 'a heap) result" where
  "push_release t x v h =
     (case (if length_v v = capacity v then grow_release t v h else Inr (v, h)) of
        Inl e \<Rightarrow> Inl e
      | Inr (v1, h1) \<Rightarrow>
          (case write_slot t h1 (ptr v1) (unat (length_v v1)) (Init x) of
             Inl e \<Rightarrow> Inl e
           | Inr h2 \<Rightarrow> Inr (v1\<lparr>length_v := length_v v1 + 1\<rparr>, h2)))"

section \<open>The checks never fire\<close>

lemma grow_release_eq:
  assumes wf: "ty_wf t" "ty_size t \<noteq> 0" and inv: "vec_inv t v h"
  shows "grow_release t v h = grow t v h"
proof (cases "capacity v = 0")
  case True
  then show ?thesis by (simp add: grow_def grow_release_def Let_def)
next
  case False
  obtain L where "layout_array t (capacity v) = Some L"
    using inv False by (metis vec_inv_block)
  then have "unat (capacity v) < 2 ^ 63"
    using layout_array_count_bound [OF wf] by blast
  then have "checked_mul (capacity v) 2 = Some (capacity v * 2)"
    by (rule checked_mul_double)
  with False show ?thesis by (simp add: grow_def grow_release_def Let_def)
qed

end
