(* ===== verification/Alloc_Contract.thy ===== *)
theory Alloc_Contract
  imports Vector
begin

text \<open>
  The allocator as an interface.  \<open>Vector\<close> relies only on what the
  \<open>GlobalAlloc\<close> contract promises of \<open>alloc\<close> and \<open>realloc\<close>, not on the bump
  allocator of \<open>Memory\<close>.  \<open>alloc_ok\<close> and \<open>realloc_ok\<close> state the contract as
  relations between a call and its outcome: null with the heap untouched, or a
  non-null address of a block of the requested layout, fresh for \<open>alloc\<close> and
  either the old address (resized in place) or a fresh one (moved) for \<open>realloc\<close>,
  the first \<open>min old new\<close> bytes preserved and every other block untouched.
  \<open>grow_spec\<close> and \<open>push_spec\<close> are \<open>grow\<close> and \<open>push\<close> with the allocator call
  replaced by any outcome the contract allows; \<open>grow_with\<close> and \<open>push_with\<close>
  are the code with the allocator's \<open>realloc\<close> a parameter.  The lemmas show
  that the code over any \<open>realloc\<close> conforming to the contract (the bump
  allocator's, and \<open>realloc_in_place\<close>, which resizes the last block where it
  lies) is one of those outcomes, and that the vector is correct for all of them.
\<close>

section \<open>The contract\<close>

definition alloc_ok :: "elem_ty \<Rightarrow> layout \<Rightarrow> 'a heap \<Rightarrow> addr \<times> 'a heap \<Rightarrow> bool" where
  "alloc_ok t L h r \<longleftrightarrow>
     (case r of (q, h') \<Rightarrow>
        (q = 0 \<and> h' = h)
      \<or> (q \<noteq> 0 \<and> blocks h q = None \<and> blocks h' = (blocks h)(q \<mapsto> new_block t L)
         \<and> drop_log h' = drop_log h \<and> avail h' + unat (lsize L) = avail h))"

definition realloc_pre :: "'a heap \<Rightarrow> addr \<Rightarrow> layout \<Rightarrow> usize \<Rightarrow> bool" where
  "realloc_pre h p L n \<longleftrightarrow>
     n \<noteq> 0 \<and> (case blocks h p of None \<Rightarrow> False | Some b \<Rightarrow> blk_layout b = L)"

definition realloc_ok :: "elem_ty \<Rightarrow> 'a heap \<Rightarrow> addr \<Rightarrow> layout \<Rightarrow> usize \<Rightarrow> addr \<times> 'a heap \<Rightarrow> bool" where
  "realloc_ok t h p L n r \<longleftrightarrow>
     (case r of (q, h') \<Rightarrow>
        (q = 0 \<and> h' = h)
      \<or> (q \<noteq> 0 \<and> (q = p \<or> blocks h q = None)
         \<and> (case blocks h p of
              None \<Rightarrow> False
            | Some b \<Rightarrow> blocks h' = (blocks h)(p := None, q \<mapsto>
                \<lparr>blk_layout = L\<lparr>lsize := n\<rparr>,
                 blk_slots = resize_slots (unat n div unat (ty_size t)) (blk_slots b)\<rparr>))
         \<and> drop_log h' = drop_log h \<and> avail h' + unat n = avail h + unat (lsize L)))"

section \<open>grow and push against the contract\<close>

text \<open>The part of \<open>grow\<close> before the allocator call: the new capacity and layout.\<close>

definition grow_req :: "elem_ty \<Rightarrow> vector \<Rightarrow> (usize \<times> layout) result" where
  "grow_req t v =
     (case (if capacity v = 0 then Some 4 else checked_mul (capacity v) 2) of
        None \<Rightarrow> Inl (Panic MulOverflow)
      | Some nc \<Rightarrow> (case layout_array t nc of None \<Rightarrow> Inl (Panic LayoutErr) | Some NL \<Rightarrow> Inr (nc, NL)))"

text \<open>The part after it: \<open>NonNull::new(..).unwrap_or_else(handle_alloc_error)\<close>.\<close>

definition grow_finish :: "vector \<Rightarrow> usize \<Rightarrow> layout \<Rightarrow> addr \<times> 'a heap \<Rightarrow> (vector \<times> 'a heap) result" where
  "grow_finish v nc NL r =
     (case r of (q, h') \<Rightarrow>
        if q = 0 then Inl (AllocAbort (lsize NL)) else Inr (v\<lparr>ptr := q, capacity := nc\<rparr>, h'))"

definition grow_spec :: "elem_ty \<Rightarrow> vector \<Rightarrow> 'a heap \<Rightarrow> (vector \<times> 'a heap) result \<Rightarrow> bool" where
  "grow_spec t v h res \<longleftrightarrow>
     (case grow_req t v of
        Inl e \<Rightarrow> res = Inl e
      | Inr (nc, NL) \<Rightarrow>
          if capacity v = 0 then
            (if lsize NL = 0 then res = Inl (UB ZeroSizeAlloc)
             else \<exists>r. alloc_ok t NL h r \<and> res = grow_finish v nc NL r)
          else
            (case layout_array t (capacity v) of
               None \<Rightarrow> res = Inl (Panic LayoutErr)
             | Some L \<Rightarrow>
                 if realloc_pre h (ptr v) L (lsize NL)
                 then \<exists>r. realloc_ok t h (ptr v) L (lsize NL) r \<and> res = grow_finish v nc NL r
                 else \<exists>u. res = Inl (UB u)))"

text \<open>The part of \<open>push\<close> after the optional \<open>grow\<close>: the write and \<open>length += 1\<close>.\<close>

definition push_after :: "elem_ty \<Rightarrow> 'a \<Rightarrow> (vector \<times> 'a heap) result \<Rightarrow> (vector \<times> 'a heap) result" where
  "push_after t x r =
     (case r of
        Inl e \<Rightarrow> Inl e
      | Inr (v1, h1) \<Rightarrow>
          (case write_slot t h1 (ptr v1) (unat (length_v v1)) (Init x) of
             Inl e \<Rightarrow> Inl e
           | Inr h2 \<Rightarrow>
               (case checked_add (length_v v1) 1 of
                  None \<Rightarrow> Inl (Panic AddOverflow)
                | Some n \<Rightarrow> Inr (v1\<lparr>length_v := n\<rparr>, h2))))"

definition push_spec :: "elem_ty \<Rightarrow> 'a \<Rightarrow> vector \<Rightarrow> 'a heap \<Rightarrow> (vector \<times> 'a heap) result \<Rightarrow> bool" where
  "push_spec t x v h res \<longleftrightarrow>
     (if length_v v = capacity v then \<exists>g. grow_spec t v h g \<and> res = push_after t x g
      else res = push_after t x (Inr (v, h)))"

section \<open>grow and push over an allocator given as a parameter\<close>

text \<open>
  \<open>grow\<close> and \<open>push\<close> as the code has them, with the function called for
  \<open>alloc::realloc\<close> a parameter \<open>ra\<close> (\<open>alloc::alloc\<close> stays the bump allocator's):
  \<open>grow_with realloc\<close> is \<open>grow\<close>.  \<open>realloc_conforms\<close> is what the code
  needs of \<open>ra\<close> on a heap: undefined behaviour exactly off the precondition of
  \<open>realloc\<close>, and on it an outcome the contract allows.
\<close>

definition grow_with ::
  "(elem_ty \<Rightarrow> 'a heap \<Rightarrow> addr \<Rightarrow> layout \<Rightarrow> usize \<Rightarrow> (addr \<times> 'a heap) result)
   \<Rightarrow> elem_ty \<Rightarrow> vector \<Rightarrow> 'a heap \<Rightarrow> (vector \<times> 'a heap) result" where
  "grow_with ra t v h =
     (case (if capacity v = 0 then Some 4 else checked_mul (capacity v) 2) of
        None \<Rightarrow> Inl (Panic MulOverflow)
      | Some new_capacity \<Rightarrow>
          (case layout_array t new_capacity of
             None \<Rightarrow> Inl (Panic LayoutErr)
           | Some new_layout \<Rightarrow>
               (case (if capacity v = 0 then alloc t new_layout h
                      else case layout_array t (capacity v) of
                             None \<Rightarrow> Inl (Panic LayoutErr)
                           | Some old_layout \<Rightarrow>
                               ra t h (ptr v) old_layout (lsize new_layout)) of
                  Inl e \<Rightarrow> Inl e
                | Inr (new_ptr, h') \<Rightarrow>
                    if new_ptr = 0 then Inl (AllocAbort (lsize new_layout))
                    else Inr (v\<lparr>ptr := new_ptr, capacity := new_capacity\<rparr>, h'))))"

definition push_with ::
  "(elem_ty \<Rightarrow> 'a heap \<Rightarrow> addr \<Rightarrow> layout \<Rightarrow> usize \<Rightarrow> (addr \<times> 'a heap) result)
   \<Rightarrow> elem_ty \<Rightarrow> 'a \<Rightarrow> vector \<Rightarrow> 'a heap \<Rightarrow> (vector \<times> 'a heap) result" where
  "push_with ra t x v h =
     (case (if length_v v = capacity v then grow_with ra t v h else Inr (v, h)) of
        Inl e \<Rightarrow> Inl e
      | Inr (v1, h1) \<Rightarrow>
          (case write_slot t h1 (ptr v1) (unat (length_v v1)) (Init x) of
             Inl e \<Rightarrow> Inl e
           | Inr h2 \<Rightarrow>
               (case checked_add (length_v v1) 1 of
                  None \<Rightarrow> Inl (Panic AddOverflow)
                | Some n \<Rightarrow> Inr (v1\<lparr>length_v := n\<rparr>, h2))))"

definition realloc_conforms ::
  "elem_ty \<Rightarrow> 'a heap \<Rightarrow> (elem_ty \<Rightarrow> 'a heap \<Rightarrow> addr \<Rightarrow> layout \<Rightarrow> usize \<Rightarrow> (addr \<times> 'a heap) result) \<Rightarrow> bool" where
  "realloc_conforms t h ra \<longleftrightarrow>
     (\<forall>p L n. case ra t h p L n of
        Inl e \<Rightarrow> \<not> realloc_pre h p L n \<and> (\<exists>u. e = UB u)
      | Inr r \<Rightarrow> realloc_pre h p L n \<and> realloc_ok t h p L n r)"

section \<open>A second allocator: realloc in place\<close>

text \<open>
  A bump allocator that resizes the last block in place when it can (its end is the
  bump address) and otherwise moves, as the contract of \<open>realloc\<close> allows.
\<close>

definition realloc_in_place :: "elem_ty \<Rightarrow> 'a heap \<Rightarrow> addr \<Rightarrow> layout \<Rightarrow> usize \<Rightarrow> (addr \<times> 'a heap) result" where
  "realloc_in_place t h p L n =
     (case blocks h p of
        None \<Rightarrow> Inl (UB InvalidRealloc)
      | Some b \<Rightarrow>
          if blk_layout b \<noteq> L then Inl (UB InvalidRealloc)
          else if n = 0 then Inl (UB ZeroSizeRealloc)
          else if avail h < unat n then Inr (0, h)
          else let q = (if p + unat (lsize L) = next_addr h then p else next_addr h) in
            Inr (q, h\<lparr>blocks := (blocks h)(p := None,
                        q \<mapsto> \<lparr>blk_layout = L\<lparr>lsize := n\<rparr>,
                              blk_slots = resize_slots (unat n div unat (ty_size t)) (blk_slots b)\<rparr>),
                      next_addr := q + unat n,
                      avail := avail h - unat n + unat (lsize L)\<rparr>))"

section \<open>The bump allocator meets the contract\<close>

lemma alloc_meets_contract:
  assumes hw: "heap_wf h" and nz: "lsize L \<noteq> 0" and a: "alloc t L h = Inr r"
  shows "alloc_ok t L h r"
  using hw nz a by (auto simp: alloc_def alloc_ok_def heap_wf_def Let_def split: if_splits)

lemma realloc_meets_contract:
  assumes hw: "heap_wf h" and a: "realloc t h p L n = Inr r"
  shows "realloc_pre h p L n \<and> realloc_ok t h p L n r"
  using hw a by (auto simp: realloc_def realloc_ok_def realloc_pre_def heap_wf_def Let_def
                      split: if_splits option.splits)

section \<open>Refinement: the code is one outcome of the contract\<close>

lemma grow_with_realloc: "grow_with realloc = grow"
  by (simp add: fun_eq_iff grow_with_def grow_def)

lemma push_with_realloc: "push_with realloc = push"
  by (simp add: fun_eq_iff push_with_def push_def grow_with_realloc)

lemma push_with_push_after:
  "push_with ra t x v h = push_after t x (if length_v v = capacity v then grow_with ra t v h else Inr (v, h))"
  by (simp add: push_with_def push_after_def)

lemma realloc_conforms_bump:
  assumes hw: "heap_wf h"
  shows "realloc_conforms t h realloc"
  unfolding realloc_conforms_def
proof (intro allI)
  fix p L n
  show "case realloc t h p L n of
          Inl e \<Rightarrow> \<not> realloc_pre h p L n \<and> (\<exists>u. e = UB u)
        | Inr r \<Rightarrow> realloc_pre h p L n \<and> realloc_ok t h p L n r"
  proof (cases "realloc t h p L n")
    case (Inl e)
    have "\<not> realloc_pre h p L n"
      using Inl realloc_Inr_iff [of t h p L n] by (auto simp: realloc_pre_def split: option.splits)
    moreover have "\<exists>u. e = UB u"
      using Inl by (auto simp: realloc_def Let_def split: option.splits if_splits)
    ultimately show ?thesis using Inl by simp
  next
    case (Inr r)
    then show ?thesis using realloc_meets_contract [OF hw Inr] by simp
  qed
qed

lemma grow_with_refines_spec:
  assumes hw: "heap_wf h" and ra: "realloc_conforms t h ra"
  shows "grow_spec t v h (grow_with ra t v h)"
proof (cases "grow_req t v")
  case (Inl e)
  then show ?thesis
    by (auto simp: grow_spec_def grow_req_def grow_with_def split: option.splits if_splits)
next
  case (Inr r)
  then obtain nc NL where r: "grow_req t v = Inr (nc, NL)" by (cases r) auto
  then have nc: "(if capacity v = 0 then Some 4 else checked_mul (capacity v) 2) = Some nc"
      and NL: "layout_array t nc = Some NL"
    by (auto simp: grow_req_def split: option.splits)
  have g: "grow_with ra t v h =
      (case (if capacity v = 0 then alloc t NL h
             else case layout_array t (capacity v) of
                    None \<Rightarrow> Inl (Panic LayoutErr)
                  | Some old_layout \<Rightarrow> ra t h (ptr v) old_layout (lsize NL)) of
         Inl e \<Rightarrow> Inl e
       | Inr a \<Rightarrow> grow_finish v nc NL a)"
    using nc NL by (simp add: grow_with_def grow_finish_def split: sum.split prod.split)
  show ?thesis
  proof (cases "capacity v = 0")
    case True
    show ?thesis
    proof (cases "lsize NL = 0")
      case True
      with \<open>capacity v = 0\<close> show ?thesis using r g by (simp add: grow_spec_def alloc_def)
    next
      case False
      then obtain a where a: "alloc t NL h = Inr a" using alloc_Inr_iff by blast
      then show ?thesis
        using \<open>capacity v = 0\<close> False r g alloc_meets_contract [OF hw False a]
        by (cases a) (auto simp: grow_spec_def)
    qed
  next
    case False
    show ?thesis
    proof (cases "layout_array t (capacity v)")
      case None
      then show ?thesis using False r g by (simp add: grow_spec_def)
    next
      case (Some L)
      have c: "case ra t h (ptr v) L (lsize NL) of
                 Inl e \<Rightarrow> \<not> realloc_pre h (ptr v) L (lsize NL) \<and> (\<exists>u. e = UB u)
               | Inr r \<Rightarrow> realloc_pre h (ptr v) L (lsize NL) \<and> realloc_ok t h (ptr v) L (lsize NL) r"
        using ra by (simp add: realloc_conforms_def)
      show ?thesis
      proof (cases "ra t h (ptr v) L (lsize NL)")
        case (Inl e)
        then show ?thesis using c False Some r g by (auto simp: grow_spec_def)
      next
        case (Inr a)
        then show ?thesis using c False Some r g by (cases a) (auto simp: grow_spec_def)
      qed
    qed
  qed
qed

lemma grow_refines_spec:
  assumes hw: "heap_wf h"
  shows "grow_spec t v h (grow t v h)"
  using grow_with_refines_spec [OF hw realloc_conforms_bump [OF hw]] by (simp add: grow_with_realloc)

lemma push_with_refines_spec:
  assumes hw: "heap_wf h" and ra: "realloc_conforms t h ra"
  shows "push_spec t x v h (push_with ra t x v h)"
  using grow_with_refines_spec [OF hw ra, of v]
  by (auto simp: push_spec_def push_with_push_after)

lemma push_via_push_after:
  "push t x v h = push_after t x (if length_v v = capacity v then grow t v h else Inr (v, h))"
  by (simp add: push_def push_after_def)

section \<open>The vector is correct for every allocator meeting the contract\<close>

lemma grow_spec_Inr:
  assumes g: "grow_spec t v h (Inr (v', h'))"
  obtains nc NL q where "grow_req t v = Inr (nc, NL)" "q \<noteq> 0" "v' = v\<lparr>ptr := q, capacity := nc\<rparr>"
    "capacity v = 0" "alloc_ok t NL h (q, h')"
  | nc NL L q where "grow_req t v = Inr (nc, NL)" "q \<noteq> 0" "v' = v\<lparr>ptr := q, capacity := nc\<rparr>"
    "capacity v \<noteq> 0" "layout_array t (capacity v) = Some L" "realloc_ok t h (ptr v) L (lsize NL) (q, h')"
  using g by (auto simp: grow_spec_def grow_finish_def split: sum.splits prod.splits if_splits option.splits)

lemma grow_spec_ok:
  assumes wf: "ty_wf t" "ty_size t \<noteq> 0" and inv: "vec_inv t v h"
    and g: "grow_spec t v h (Inr (v', h'))"
  shows "vec_inv t v' h' \<and> length_v v' = length_v v \<and> contents v' h' = contents v h
         \<and> unat (capacity v') = (if capacity v = 0 then 4 else 2 * unat (capacity v))
         \<and> drop_log h' = drop_log h
         \<and> (\<forall>q. q \<noteq> ptr v' \<longrightarrow> blocks h' q = (if capacity v \<noteq> 0 \<and> q = ptr v then None else blocks h q))
         \<and> ((capacity v \<noteq> 0 \<and> ptr v' = ptr v) \<or> blocks h (ptr v') = None)
         \<and> avail h' + unat (ty_size t) * unat (capacity v') = avail h + unat (ty_size t) * unat (capacity v)"
  using g
proof (cases rule: grow_spec_Inr)
  case (1 nc NL q)
  then have len0: "length_v v = 0" using inv by (simp add: vec_inv_def)
  have nc: "nc = 4" and L: "layout_array t 4 = Some NL"
    using 1 by (auto simp: grow_req_def split: option.splits)
  have a: "blocks h q = None" "blocks h' = (blocks h)(q \<mapsto> new_block t NL)"
      "drop_log h' = drop_log h" "avail h' + unat (lsize NL) = avail h"
    using 1 by (auto simp: alloc_ok_def)
  have sz4: "unat (lsize NL) = unat (ty_size t) * 4"
    using layout_array_size [OF wf(1) L] by simp
  have "block_ok t v' (new_block t NL)"
    using block_ok_fresh [OF wf L len0] 1 nc by simp
  then show ?thesis
    using 1 nc len0 a sz4 by (simp add: vec_inv_def contents_def)
next
  case (2 nc NL L q)
  obtain b L0 where b: "blocks h (ptr v) = Some b" "block_ok t v b"
      and L0: "layout_array t (capacity v) = Some L0" "blk_layout b = L0"
    using inv 2(4) by (rule vec_inv_block)
  have LL: "L = L0" using L0(1) 2(5) by simp
  have cb: "unat (capacity v) < 2 ^ 63"
    using layout_array_count_bound [OF wf L0(1)] .
  have nc: "nc = capacity v * 2" and NL: "layout_array t (capacity v * 2) = Some NL"
    using 2(1,4) checked_mul_double [OF cb] by (auto simp: grow_req_def split: option.splits)
  have rk: "q = ptr v \<or> blocks h q = None"
      and bl: "blocks h' = (blocks h)(ptr v := None, q \<mapsto> \<lparr>blk_layout = L0\<lparr>lsize := lsize NL\<rparr>,
               blk_slots = resize_slots (unat (lsize NL) div unat (ty_size t)) (blk_slots b)\<rparr>)"
      and rest: "drop_log h' = drop_log h" "avail h' + unat (lsize NL) = avail h + unat (lsize L0)"
    using 2(2,6) b(1) LL by (auto simp: realloc_ok_def)
  have sz: "unat (lsize NL) = unat (ty_size t) * unat (capacity v * 2)"
    "unat (lsize L0) = unat (ty_size t) * unat (capacity v)"
    using layout_array_size [OF wf(1) NL] layout_array_size [OF wf(1) L0(1)] by simp_all
  have dbl: "unat (capacity v * 2) = 2 * unat (capacity v)"
    using unat_double_no_wrap [OF cb] .
  have le: "length_v v \<le> capacity v" using inv by (simp add: vec_inv_def)
  have ok: "block_ok t v' \<lparr>blk_layout = L0\<lparr>lsize := lsize NL\<rparr>,
               blk_slots = resize_slots (unat (lsize NL) div unat (ty_size t)) (blk_slots b)\<rparr>"
    using block_ok_grown [OF wf b(2) NL _ L0(1) le] dbl 2(3) nc by simp
  have nz: "capacity v * 2 \<noteq> 0"
    using dbl 2(4) by (metis mult_is_0 unat_eq_zero zero_neq_numeral)
  have "length_v v' \<le> capacity v'"
    using le 2(3) nc dbl by (simp add: word_le_nat_alt)
  moreover have "take (unat (length_v v)) (resize_slots (unat (lsize NL) div unat (ty_size t)) (blk_slots b))
                 = take (unat (length_v v)) (blk_slots b)"
    using b(2) le layout_array_slots [OF wf NL] dbl
    by (simp add: resize_slots_grow block_ok_def word_le_nat_alt)
  ultimately show ?thesis
    using ok 2(2,3,4) nc rk bl rest nz b(1) dbl sz by (auto simp: vec_inv_def contents_def)
qed

lemma push_after_ok:
  assumes wf: "ty_wf t" "ty_size t \<noteq> 0" and inv: "vec_inv t v1 h1" and lt: "length_v v1 < capacity v1"
    and p: "push_after t x (Inr (v1, h1)) = Inr (v', h')"
  shows "vec_inv t v' h' \<and> contents v' h' = contents v1 h1 @ [x]
         \<and> unat (length_v v') = Suc (unat (length_v v1)) \<and> capacity v' = capacity v1 \<and> ptr v' = ptr v1
         \<and> drop_log h' = drop_log h1 \<and> avail h' = avail h1
         \<and> (\<forall>q. q \<noteq> ptr v1 \<longrightarrow> blocks h' q = blocks h1 q)"
proof -
  have nz: "capacity v1 \<noteq> 0" using lt by auto
  obtain b where b: "blocks h1 (ptr v1) = Some b" "block_ok t v1 b"
    using inv nz by (auto simp: vec_inv_def split: option.splits)
  have n: "unat (length_v v1) < List.length (blk_slots b)"
    using lt b(2) by (simp add: block_ok_def word_less_nat_alt)
  have suc: "unat (length_v v1 + 1) = Suc (unat (length_v v1))"
    using word_suc_no_wrap [OF lt] .
  have ca: "checked_add (length_v v1) 1 = Some (length_v v1 + 1)"
    using suc unsigned_less [of "length_v v1 + 1", where ?'a = nat] by (simp add: checked_add_def)
  have r: "v' = v1\<lparr>length_v := length_v v1 + 1\<rparr>"
      "h' = h1\<lparr>blocks := (blocks h1)(ptr v1 \<mapsto> b\<lparr>blk_slots := (blk_slots b)[unat (length_v v1) := Init x]\<rparr>)\<rparr>"
    using p write_slot_ok [OF b(1) n wf(2)] ca by (auto simp: push_after_def)
  note bp = block_ok_push [OF b(2) lt, of x]
  have "length_v v1 + 1 \<le> capacity v1"
    using lt by (simp add: inc_le)
  then show ?thesis
    using r bp b suc by (simp add: vec_inv_def contents_def nz)
qed

lemma realloc_in_place_meets_contract:
  assumes hw: "heap_wf h" and p0: "p \<noteq> 0" and r: "realloc_in_place t h p L n = Inr r"
  shows "realloc_pre h p L n \<and> realloc_ok t h p L n r"
  using hw p0 r by (auto simp: realloc_in_place_def realloc_ok_def realloc_pre_def heap_wf_def Let_def
                         split: if_splits option.splits)

lemma realloc_conforms_in_place:
  assumes hw: "heap_wf h" and z: "blocks h 0 = None"
  shows "realloc_conforms t h realloc_in_place"
  unfolding realloc_conforms_def
proof (intro allI)
  fix p L n
  show "case realloc_in_place t h p L n of
          Inl e \<Rightarrow> \<not> realloc_pre h p L n \<and> (\<exists>u. e = UB u)
        | Inr r \<Rightarrow> realloc_pre h p L n \<and> realloc_ok t h p L n r"
  proof (cases "realloc_in_place t h p L n")
    case (Inl e)
    then show ?thesis
      by (auto simp: realloc_in_place_def realloc_pre_def Let_def split: option.splits if_splits)
  next
    case (Inr r)
    have "p \<noteq> 0" using Inr z by (cases "p = 0") (auto simp: realloc_in_place_def)
    then show ?thesis using realloc_in_place_meets_contract [OF hw _ Inr] Inr by simp
  qed
qed

lemma push_spec_ok:
  assumes wf: "ty_wf t" "ty_size t \<noteq> 0" and inv: "vec_inv t v h"
    and p: "push_spec t x v h (Inr (v', h'))"
  shows "vec_inv t v' h' \<and> contents v' h' = contents v h @ [x]
         \<and> unat (length_v v') = Suc (unat (length_v v)) \<and> drop_log h' = drop_log h
         \<and> capacity v' \<noteq> 0
         \<and> (\<forall>q. q \<noteq> ptr v' \<longrightarrow> blocks h' q = (if capacity v \<noteq> 0 \<and> q = ptr v then None else blocks h q))
         \<and> ((capacity v \<noteq> 0 \<and> ptr v' = ptr v) \<or> blocks h (ptr v') = None)"
proof (cases "length_v v = capacity v")
  case True
  then obtain g where g: "grow_spec t v h g" and pa: "push_after t x g = Inr (v', h')"
    using p by (auto simp: push_spec_def)
  obtain v1 h1 where g1: "g = Inr (v1, h1)"
    using pa by (cases g) (auto simp: push_after_def)
  note gr = grow_spec_ok [OF wf inv g [unfolded g1]]
  have lt: "length_v v1 < capacity v1"
    using gr True by (auto simp: word_less_nat_alt unat_gt_0 split: if_splits)
  note pa1 = push_after_ok [OF wf _ lt pa [unfolded g1]]
  show ?thesis
    using gr pa1 lt by auto
next
  case False
  then have lt: "length_v v < capacity v" using inv by (simp add: vec_inv_def order_less_le)
  moreover have "push_after t x (Inr (v, h)) = Inr (v', h')" using p False by (simp add: push_spec_def)
  ultimately show ?thesis using push_after_ok [OF wf inv] by auto
qed

end
