(* ===== verification/Range_Loop.thy ===== *)
theory Range_Loop
  imports Drop
begin

text \<open>
  Rust's \<open>for i in a..b { body }\<close> over \<open>usize\<close>: the loop asks the iterator
  \<open>Range<usize>\<close> for its next index, which is \<open>Some a\<close> (the start then moving
  to \<open>a + 1\<close>) while \<open>a < b\<close>, and \<open>None\<close> otherwise.  \<open>for_range\<close> is that loop
  as written, a recursion on the start index that no structural argument bounds, so
  it is a \<open>partial_function\<close> in the \<open>option\<close> monad (\<open>None\<close>: the loop does not
  stop; an error of the body ends the loop early).  The destructor's loop over
  \<open>0..self.length\<close> (lines 64--66) and the whole destructor are then written with it
  (\<open>drop_loop_for\<close>, \<open>drop_v_iter\<close>).  The lemmas show that the loop always stops,
  after visiting \<open>a, a+1, .., b-1\<close> in order, so the iterator form agrees with the
  list form \<open>drop_loop\<close>/\<open>drop_v\<close> used elsewhere.
\<close>

section \<open>The loop\<close>

partial_function (option) for_range ::
  "(usize \<Rightarrow> 's \<Rightarrow> 's result) \<Rightarrow> usize \<Rightarrow> usize \<Rightarrow> 's \<Rightarrow> 's result option" where
  "for_range body i n s =
     (if i < n then
        (case body i s of
           Inl e \<Rightarrow> Some (Inl e)
         | Inr s' \<Rightarrow> for_range body (i + 1) n s')
      else Some (Inr s))"

text \<open>The reference: the body run over a list of indices, stopping at the first error.\<close>

fun list_loop :: "('i \<Rightarrow> 's \<Rightarrow> 's result) \<Rightarrow> 'i list \<Rightarrow> 's \<Rightarrow> 's result" where
  "list_loop body [] s = Inr s"
| "list_loop body (i # is) s = (case body i s of Inl e \<Rightarrow> Inl e | Inr s' \<Rightarrow> list_loop body is s')"

section \<open>The destructor with its loop as written\<close>

definition drop_loop_for :: "elem_ty \<Rightarrow> 'a heap \<Rightarrow> addr \<Rightarrow> usize \<Rightarrow> 'a heap result option" where
  "drop_loop_for t h p n = for_range (\<lambda>i h. drop_in_place_uninit t h p (unat i)) 0 n h"

definition drop_v_iter :: "elem_ty \<Rightarrow> vector \<Rightarrow> 'a heap \<Rightarrow> 'a heap result option" where
  "drop_v_iter t v h =
     (case drop_loop_for t h (ptr v) (length_v v) of
        None \<Rightarrow> None
      | Some (Inl e) \<Rightarrow> Some (Inl e)
      | Some (Inr h1) \<Rightarrow>
          Some (if capacity v \<noteq> 0 then
                  (case layout_array t (capacity v) of
                     None \<Rightarrow> Inl (Panic LayoutErr)
                   | Some L \<Rightarrow> dealloc h1 (ptr v) L)
                else Inr h1))"

section \<open>The loop stops, in index order\<close>

lemma for_range_upt:
  "for_range body i n s = Some (list_loop body (map of_nat [unat i..<unat n]) s)"
proof (induction "unat n - unat i" arbitrary: i s)
  case 0
  then have "\<not> i < n" by (simp add: word_less_nat_alt)
  then show ?case
    using 0 by (simp add: for_range.simps [of body i n s] word_less_nat_alt)
next
  case (Suc k)
  then have lt: "i < n" by (simp add: word_less_nat_alt)
  then have ui: "unat (i + 1) = Suc (unat i)"
    using word_suc_no_wrap by blast
  have up: "[unat i..<unat n] = unat i # [Suc (unat i)..<unat n]"
    using lt by (simp add: word_less_nat_alt upt_conv_Cons)
  have ih: "for_range body (i + 1) n s' = Some (list_loop body (map of_nat [unat (i + 1)..<unat n]) s')" for s'
    using Suc.hyps(1) [of "i + 1"] Suc.hyps(2) ui by simp
  show ?case
    using lt ih ui up by (simp add: for_range.simps [of body i n s] split: sum.split)
qed

lemma drop_loop_list_loop:
  "drop_loop t h p idx = list_loop (\<lambda>i h. drop_in_place_uninit t h p i) idx h"
  by (induction idx arbitrary: h) (auto split: sum.split)

lemma list_loop_map:
  "list_loop body (map f xs) s = list_loop (\<lambda>i. body (f i)) xs s"
  by (induction xs arbitrary: s) (auto split: sum.split)

lemma list_loop_cong:
  "(\<And>i s. i \<in> set xs \<Longrightarrow> body i s = body' i s) \<Longrightarrow> list_loop body xs s = list_loop body' xs s"
  by (induction xs arbitrary: s) (auto split: sum.split)

lemma drop_loop_for_eq:
  "drop_loop_for t h p n = Some (drop_loop t h p [0..<unat n])"
proof -
  have "list_loop (\<lambda>k h. drop_in_place_uninit t h p (unat (of_nat k :: usize))) [0..<unat n] h
        = list_loop (\<lambda>k h. drop_in_place_uninit t h p k) [0..<unat n] h"
  proof (rule list_loop_cong)
    fix k s assume "k \<in> set [0..<unat n]"
    then have "k < 2 ^ 64" using unsigned_less [of n, where ?'a = nat] by simp
    then show "drop_in_place_uninit t s p (unat (of_nat k :: usize)) = drop_in_place_uninit t s p k"
      by (simp add: unat_of_nat)
  qed
  then show ?thesis
    by (simp add: drop_loop_for_def for_range_upt list_loop_map drop_loop_list_loop)
qed

lemma drop_v_iter_eq: "drop_v_iter t v h = Some (drop_v t v h)"
  by (simp add: drop_v_iter_def drop_v_def drop_loop_for_eq split: sum.split)

end
