(* ===== verification/Client_Contract.thy ===== *)
theory Client_Contract
  imports Client Alloc_Contract
begin

text \<open>
  Client programs over any allocator meeting the \<open>GlobalAlloc\<close> contract: the step
  relation of \<open>Client\<close> with each \<open>push\<close> replaced by any outcome \<open>push_spec\<close>
  allows (so a \<open>realloc\<close> may resize in place or move).  The invariant no longer
  mentions the bump allocator's well-formedness: every live vector valid, regions
  pairwise distinct.  The lemmas show that it holds after every run and that every
  run still implements named lists, and that the runs of \<open>Client\<close> are runs here.
\<close>

section \<open>Steps with any allocator\<close>

inductive sys_step_c :: "elem_ty \<Rightarrow> 'a sys \<Rightarrow> 'a client_op \<Rightarrow> 'a sys \<Rightarrow> bool" for t where
  stepc_new: "vecs s i = None \<Longrightarrow>
     sys_step_c t s (Op_new i) (s\<lparr>vecs := (vecs s)(i \<mapsto> new_v t)\<rparr>)"
| stepc_push: "vecs s i = Some v \<Longrightarrow> push_spec t x v (mem s) (Inr (v', h')) \<Longrightarrow>
     sys_step_c t s (Op_push i x) (s\<lparr>vecs := (vecs s)(i \<mapsto> v'), mem := h'\<rparr>)"
| stepc_drop: "vecs s i = Some v \<Longrightarrow> drop_v t v (mem s) = Inr h' \<Longrightarrow>
     sys_step_c t s (Op_drop i) (s\<lparr>vecs := (vecs s)(i := None), mem := h'\<rparr>)"

inductive sys_steps_c :: "elem_ty \<Rightarrow> 'a sys \<Rightarrow> 'a client_op list \<Rightarrow> 'a sys \<Rightarrow> bool" for t where
  stepsc_nil: "sys_steps_c t s [] s"
| stepsc_cons: "sys_step_c t s c s1 \<Longrightarrow> sys_steps_c t s1 cs s' \<Longrightarrow> sys_steps_c t s (c # cs) s'"

definition sys_inv_c :: "elem_ty \<Rightarrow> 'a sys \<Rightarrow> bool" where
  "sys_inv_c t s \<longleftrightarrow> finite (dom (vecs s))
     \<and> (\<forall>i v. vecs s i = Some v \<longrightarrow> vec_inv t v (mem s)) \<and> regions_disjoint s"

section \<open>Lemmas\<close>

lemma sys_inv_c_sys_inv: "sys_inv t s \<Longrightarrow> sys_inv_c t s"
  by (simp add: sys_inv_def sys_inv_c_def)

lemma sys_step_c_push_ok:
  assumes wf: "ty_wf t" "ty_size t \<noteq> 0" and inv: "sys_inv_c t s"
    and vi: "vecs s i = Some v" and p: "push_spec t x v (mem s) (Inr (v', h'))"
  defines "s' \<equiv> s\<lparr>vecs := (vecs s)(i \<mapsto> v'), mem := h'\<rparr>"
  shows "sys_inv_c t s' \<and> sys_abs s' = (sys_abs s)(i \<mapsto> contents v (mem s) @ [x])"
proof -
  have all: "\<And>j w. vecs s j = Some w \<Longrightarrow> vec_inv t w (mem s)" and dis: "regions_disjoint s"
    using inv by (auto simp: sys_inv_c_def)
  note ok = push_spec_ok [OF wf all [OF vi] p]
  have other: "ptr w \<noteq> ptr v' \<and> blocks h' (ptr w) = blocks (mem s) (ptr w)"
    if "j \<noteq> i" "vecs s j = Some w" "capacity w \<noteq> 0" for j w
  proof -
    have bw: "blocks (mem s) (ptr w) \<noteq> None"
      using all [OF that(2)] that(3) by (metis vec_inv_block option.distinct(1))
    have nv: "capacity v \<noteq> 0 \<longrightarrow> ptr w \<noteq> ptr v"
      using dis that vi by (auto simp: regions_disjoint_def)
    have "ptr w \<noteq> ptr v'" using ok bw nv by metis
    then show ?thesis using ok nv by auto
  qed
  have iv': "vec_inv t v' h'" using ok by blast
  have ob: "blocks h' (ptr w) = blocks (mem s) (ptr w)"
    if "j \<noteq> i" "vecs s j = Some w" "capacity w \<noteq> 0" for j w
    using other [OF that] by blast
  note rep = replace_others [OF all vi iv' ob]
  have "regions_disjoint s'"
    unfolding s'_def using dis other by (intro regions_disjoint_replace) auto
  then show ?thesis
    using inv rep ok unfolding s'_def by (simp add: sys_inv_c_def)
qed

lemma sys_step_c_ok:
  assumes wf: "ty_wf t" "ty_size t \<noteq> 0" and inv: "sys_inv_c t s" and st: "sys_step_c t s c s'"
  shows "sys_inv_c t s' \<and> abs_step c (sys_abs s) = Some (sys_abs s')"
  using st
proof cases
  case (stepc_new i)
  have "capacity (new_v t) = 0" by (simp add: new_v_def)
  then have "sys_inv_c t s'"
    using inv stepc_new new_v_inv [of t "mem s"]
    by (auto simp: sys_inv_c_def regions_disjoint_def)
  then show ?thesis using stepc_new by (auto simp: sys_abs_def fun_eq_iff)
next
  case (stepc_push i v x v' h')
  then show ?thesis
    using sys_step_c_push_ok [OF wf inv stepc_push(3,4)] by (auto simp: sys_abs_def)
next
  case (stepc_drop i v h')
  have iv: "vec_inv t v (mem s)" using inv stepc_drop(3) by (simp add: sys_inv_c_def)
  have bl: "blocks h' = (if capacity v = 0 then blocks (mem s) else (blocks (mem s))(ptr v := None))"
    using drop_v_frame [OF wf iv stepc_drop(4)] by blast
  have other: "vec_inv t w h' = vec_inv t w (mem s) \<and> contents w h' = contents w (mem s)"
    if "j \<noteq> i" "vecs s j = Some w" for j w
  proof -
    have "capacity w \<noteq> 0 \<longrightarrow> blocks h' (ptr w) = blocks (mem s) (ptr w)"
      using inv that stepc_drop(3) bl by (auto simp: sys_inv_c_def regions_disjoint_def)
    then show ?thesis using vec_frame by blast
  qed
  have "sys_inv_c t s'"
    using inv stepc_drop other by (auto simp: sys_inv_c_def regions_disjoint_def)
  moreover have "sys_abs s' = (sys_abs s)(i := None)"
    using stepc_drop other by (auto simp: sys_abs_def fun_eq_iff intro!: option.map_cong)
  ultimately show ?thesis using stepc_drop by (auto simp: sys_abs_def)
qed

lemma sys_steps_c_ok:
  assumes wf: "ty_wf t" "ty_size t \<noteq> 0"
  shows "sys_steps_c t s cs s' \<Longrightarrow> sys_inv_c t s \<Longrightarrow>
         sys_inv_c t s' \<and> abs_run cs (sys_abs s) = Some (sys_abs s')"
proof (induction rule: sys_steps_c.induct)
  case (stepsc_nil s)
  then show ?case by simp
next
  case (stepsc_cons s c s1 cs s')
  note one = sys_step_c_ok [OF wf stepsc_cons.prems stepsc_cons.hyps(1)]
  with stepsc_cons.IH show ?case by simp
qed

lemma sys_step_refines_c:
  assumes hw: "heap_wf (mem s)" and st: "sys_step t s c s'"
  shows "sys_step_c t s c s'"
  using st
proof cases
  case (step_new i)
  then show ?thesis by (simp add: stepc_new)
next
  case (step_push i v x v' h')
  have "push_spec t x v (mem s) (push t x v (mem s))"
    using grow_refines_spec [OF hw, of t v]
    by (auto simp: push_spec_def push_via_push_after [of t x v "mem s"])
  then show ?thesis using step_push by (auto intro: stepc_push)
next
  case (step_drop i v h')
  then show ?thesis by (simp add: stepc_drop)
qed

lemma sys_steps_refines_c:
  assumes wf: "ty_wf t" "ty_size t \<noteq> 0"
  shows "sys_steps t s cs s' \<Longrightarrow> sys_inv t s \<Longrightarrow> sys_steps_c t s cs s'"
proof (induction rule: sys_steps.induct)
  case (steps_nil s)
  show ?case by (rule stepsc_nil)
next
  case (steps_cons s c s1 cs s')
  have "heap_wf (mem s)" using steps_cons.prems by (simp add: sys_inv_def)
  then have "sys_step_c t s c s1" using steps_cons.hyps(1) by (rule sys_step_refines_c)
  moreover have "sys_inv t s1" using sys_step_ok [OF wf steps_cons.prems steps_cons.hyps(1)] by blast
  ultimately show ?case using steps_cons.IH by (blast intro: stepsc_cons)
qed

lemma sys0_inv_c: "sys_inv_c t (sys0 h)"
  by (simp add: sys0_def sys_inv_c_def regions_disjoint_def)

end
