(* ===== verification/Spec2Isabelle.thy ===== *)
theory Spec2Isabelle
  imports Client Drop_Counter Grow_Ref Release Alloc_Contract Range_Loop Client_Contract
begin

text \<open>
  \<^bold>\<open>A verified model of \<open>Vector<T>\<close> (OxPy, \<open>src/src/Vector.rs\<close>).\<close>

  \<^bold>\<open>The program.\<close> One Rust file defines a growable array \<open>Vector<T>\<close>: a raw
  pointer \<open>ptr\<close>, a \<open>capacity\<close> and a \<open>length\<close> (lines 5--9); \<open>new\<close> (12--18)
  makes an empty vector on the dangling pointer; \<open>push\<close> (21--31) calls \<open>grow\<close>
  when full, writes the value into slot \<open>length\<close> and increments \<open>length\<close>;
  \<open>size\<close> (34--36) returns \<open>length\<close>; \<open>grow\<close> (39--58) picks the new capacity
  (4, then doubling), asks \<open>std::alloc::alloc\<close> or \<open>realloc\<close> for the block and
  aborts through \<open>handle_alloc_error\<close> on a null result; \<open>Drop\<close> (61--74) calls
  \<open>drop_in_place\<close> on slots \<open>0..length\<close> and deallocates.  Three tests
  (80--128) exercise push/size, growth to 100 elements and drop counting.
  The components interact through one shared state, the heap, which the
  allocator primitives change and the vector operations thread through.

  \<^bold>\<open>The theories.\<close>
  \<^item> \<open>Prelude\<close>: \<open>usize\<close> as \<open>64 word\<close>, the debug-build checked arithmetic of
    \<open>*\<close> and \<open>+=\<close>, and the failure modes \<open>Panic\<close>, \<open>AllocAbort\<close> (the
    abort of \<open>handle_alloc_error\<close>) and \<open>UB\<close> (a broken precondition of an
    unsafe primitive), so that a theorem can say undefined behaviour never happens.
  \<^item> \<open>Layout\<close>: the element type (size, alignment), \<open>Layout\<close>, and
    \<open>Layout::array\<close> of the core library, modelled from its contract; its size
    never wraps and stays below \<open>isize::MAX\<close>, and every layout it returns
    meets the type invariant of \<open>Layout\<close> (\<open>layout_wf\<close>).
  \<^item> \<open>Memory\<close>: the heap (live blocks at addresses, each a list of
    \<open>MaybeUninit<T>\<close> slots, a bump address, the bytes the allocator still has, and
    the log of destructors of \<open>T\<close> that ran), with \<open>alloc\<close>, \<open>realloc\<close>,
    \<open>dealloc\<close>, \<open>ptr::write\<close> and the two \<open>drop_in_place\<close> instances, all
    from their documented contracts (not under \<open>src/\<close>).
  \<^item> \<open>Vector\<close>: the struct as a record and \<open>new_v\<close>, \<open>size_v\<close>, \<open>grow\<close>,
    \<open>push\<close> from the source, the representation invariant \<open>vec_inv\<close> (spec
    section 3) and the abstraction \<open>contents\<close> to the list of live elements,
    with the one-call lemmas (\<open>grow_ok\<close>, \<open>push_ok\<close>, \<open>grow_cases\<close>,
    \<open>push_error\<close>, \<open>push_step_Inr\<close>).
  \<^item> \<open>Drop\<close>: the destructor as written (\<open>drop_loop\<close>, \<open>drop_v\<close>) and the
    destructor the spec describes (\<open>drop_elems_loop\<close>, \<open>destroy_spec\<close>).
  \<^item> \<open>Runs\<close>: client loops of pushes (\<open>push_all\<close>) and the inductive relation
    \<open>reach\<close> of states a vector built by \<open>new\<close> and pushes can be in.
  \<^item> \<open>Client\<close>: client programs over any number of vectors on one heap: the
    calls \<open>new\<close>, \<open>push\<close> and drop as a labelled step relation \<open>sys_step\<close>
    (and the same step as the function \<open>sys_exec\<close>, proved equal), runs
    \<open>sys_steps\<close>, the system invariant \<open>sys_inv\<close> (heap well formed, every
    live vector valid, regions pairwise distinct), the bytes of the live buffers
    \<open>live_bytes\<close>, the abstract machine of named lists (\<open>abs_step\<close>,
    \<open>abs_run\<close>) with the abstraction \<open>sys_abs\<close>, and the ownership frame
    (\<open>owned\<close>, \<open>sys_frame\<close>) relating the heap to the heap before the run.
  \<^item> \<open>Grow_Ref\<close>: the growth of spec section 4.1 written with separate
    primitives (\<open>grow_ref\<close>: \<open>alloc\<close>, \<open>copy_nonoverlapping\<close> of the live
    elements, \<open>dealloc\<close>) and the lemma that \<open>realloc\<close> is that sequence when
    the slots past the copied prefix are uninitialised.
  \<^item> \<open>Release\<close>: \<open>grow\<close> and \<open>push\<close> as a release build compiles them
    (\<open>grow_release\<close>, \<open>push_release\<close>: \<open>capacity * 2\<close> and \<open>length += 1\<close>
    wrap around instead of panicking).
  \<^item> \<open>Alloc_Contract\<close>: the allocator as an interface.  The
    \<open>GlobalAlloc\<close> contract of \<open>alloc\<close> and \<open>realloc\<close> as relations between a
    call and its allowed outcomes (\<open>alloc_ok\<close>, \<open>realloc_ok\<close>,
    \<open>realloc_pre\<close>: null and untouched, or a block of the new layout that is
    fresh, or for \<open>realloc\<close> the old block resized in place); \<open>grow\<close> cut at
    the allocator call into \<open>grow_req\<close> (lines 40--46) and \<open>grow_finish\<close>
    (lines 56--57), and \<open>push\<close>'s write and increment as \<open>push_after\<close> (lines
    26--30); \<open>grow_spec\<close> and \<open>push_spec\<close>, the operations with any allocator
    outcome the contract allows; \<open>grow_with\<close> and \<open>push_with\<close>, the code
    with the allocator's \<open>realloc\<close> a parameter; and a second allocator,
    \<open>realloc_in_place\<close>, which resizes the last block in place.
  \<^item> \<open>Range_Loop\<close>: Rust's \<open>for\<close> loop over a \<open>Range<usize>\<close> as the
    iterator runs it (\<open>for_range\<close>, a \<open>partial_function\<close> in the \<open>option\<close>
    monad, \<open>None\<close> meaning the loop does not stop), the destructor's loop and the
    destructor written with it (\<open>drop_loop_for\<close>, \<open>drop_v_iter\<close>), and the
    lemma that it is the destructor of \<open>Drop\<close>: the loop stops after visiting the
    range in order.
  \<^item> \<open>Client_Contract\<close>: the client programs of \<open>Client\<close> over any allocator
    meeting the contract: the step relation \<open>sys_step_c\<close> takes for each push any
    outcome \<open>push_spec\<close> allows, the invariant \<open>sys_inv_c\<close> drops the bump
    allocator's well-formedness, and every run of \<open>Client\<close> is a run here.
  \<^item> \<open>Drop_Counter\<close>: the third test, \<open>test_drop_safety\<close>, as written: the
    \<open>DropCounter\<close> type and its \<open>Drop\<close> (\<open>drop_counter_drop\<close>), the clone-and-push
    loop (\<open>push_counters\<close>), the inner block (\<open>drop_scope\<close>) and the whole test;
    the counter read \<open>*counter.borrow()\<close> (\<open>counter_read\<close>); the standard
    \<open>Vec\<close> (a list, dropped element by element: \<open>vec_drop_all\<close>) and
    \<open>Rc<RefCell<usize>>\<close> (a box with strong and weak counts, the cell's borrow
    flag and value: \<open>rc_new\<close>, \<open>rc_clone\<close>, \<open>rc_release\<close>,
    \<open>refcell_borrow\<close>, \<open>refcell_borrow_mut\<close>, \<open>borrow_end\<close>) from their
    contracts.
  \<^item> this theory: the concrete element types and heaps of the tests, the
    repository's three tests and the spec's drop-counting scenario run on the
    model (lemmas \<open>test_push_and_length_passes\<close>, \<open>test_grow_passes\<close>,
    \<open>test_drop_safety_passes\<close> for any fresh counter address, and
    \<open>drop_counter_scenario_leaks\<close>), and the properties below, each stated over
    the component definitions and proved from the component lemmas.

  \<^bold>\<open>What is proved.\<close> \<open>push\<close> refines appending to the list of live
  elements and keeps the invariant (C1); it fails only when the vector is full,
  and then only by the capacity panic of \<open>Layout::array\<close> or an allocation
  abort, never by undefined behaviour (C2); it succeeds whenever a slot is free
  or the allocator has the bytes (C3); the capacity follows the 4-then-double
  policy and changes only on growth (C4); \<open>grow\<close> relocates without losing or
  changing an element (C5), panics in \<open>Layout::array\<close> exactly when the new
  layout does not fit \<open>isize::MAX\<close> (C10), and has exactly three outcomes: that
  panic, an abort when the allocator is short, or the relocated vector (C11); the
  destructor releases exactly the vector's region with no undefined behaviour
  (C6); runs of pushes append the whole list (C12); every reachable vector wastes
  less than half of its capacity beyond the first 4 slots (C13); a push on one
  vector never disturbs another vector on the same heap (C14); the slots
  relocated over a run of pushes from \<open>new\<close> are at most twice the pushes, the
  amortised bound of spec section 4.1 (C15, with the ghost measure
  \<open>push_all_cost\<close>, which counts the whole capacity at every growth of an
  allocated vector); a run of \<open>n\<close> pushes from \<open>new\<close> always succeeds, with
  exactly the pushed values, when the allocator holds \<open>size_of T * max 4 (3n)\<close>
  bytes (C16); over the whole lifecycle \<open>new\<close>, pushes, drop, every region is
  returned and the allocator ends exactly as it started (C17).  For client
  programs over any number of vectors and any interleaving of the calls, the
  system invariant and the byte accounting hold after every run (C18), the
  vectors implement named lists: the run is a simulation of the list program
  (C19), and a call the list program allows never gets stuck on undefined
  behaviour, its only failures being the panic or abort of a full vector's growth
  (C20).  Vectors touch no block they do not own, and once every vector is
  dropped the allocator is back to its initial blocks and free bytes (C25).  On
  the standard \<open>Vec\<close> of the third test, dropping a \<open>Vec\<close> of \<open>n\<close> counters
  cloned from one \<open>Rc\<close> adds exactly \<open>n\<close> and returns every strong reference
  (C21), which is what the same scenario on \<open>Vector\<close> fails to do.  Every buffer
  a live vector owns, after any client run, has a well-formed \<open>Layout\<close> of
  exactly \<open>size_of T * capacity\<close> bytes at \<open>T\<close>'s alignment (C22).
  \<open>grow\<close> is equal, outcome and heap alike, to the reference growth that
  allocates, copies the live elements and frees (C23), and the release build of
  \<open>push\<close> equals the debug build on every valid vector, since no overflow check
  can fire (C24).  \<open>push\<close> is correct for every outcome of \<open>alloc\<close> and
  \<open>realloc\<close> the \<open>GlobalAlloc\<close> contract allows, including a \<open>realloc\<close> that
  resizes in place (C26), and so are the invariant of live vectors and the
  refinement to named lists for client programs (C27).

  \<^bold>\<open>Findings.\<close> The destructor calls \<open>drop_in_place\<close> on a
  \<open>*mut MaybeUninit<T>\<close>, which has no drop glue: no element's destructor ever
  runs, every element is leaked (C7), unlike the destructor of spec section 4.1
  (C8) and the spec's drop-counting scenario (lemma
  \<open>drop_counter_scenario_leaks\<close>); the repository's drop test uses the standard
  \<open>Vec\<close>, not \<open>Vector\<close>, so it does not see this.  For a zero-sized \<open>T\<close>, the
  first push calls \<open>alloc\<close> with a zero-size layout, which is undefined behaviour
  (C9), where the spec asks for a sentinel.

  \<^bold>\<open>Modelling choices.\<close> Arithmetic is that of a debug build (overflow
  panics), proved unreachable where it matters (C2, C11); the release build,
  where it wraps, is modelled alongside and computes the same (C24).  The
  allocator is a bump allocator with a byte budget: fresh addresses,
  \<open>realloc\<close> always moves, null when the budget is short; C26 and C27 lift
  \<open>push\<close> and the client theorems to every allocator meeting the contract.  A
  second allocator, \<open>realloc_in_place\<close>, grows the last block where it lies and
  serves as a witness that the contract's in-place outcome occurs;
  \<open>grow_with\<close> and \<open>push_with\<close> are \<open>grow\<close> and \<open>push\<close> with \<open>realloc\<close> a
  parameter, so the refinement to the contract is proved once for every
  conforming \<open>realloc\<close> (\<open>grow_with realloc = grow\<close>).  Every fact about the
  vector holds for any budget, and failure is only ever an abort; the byte budget
  is threaded through \<open>grow\<close> and \<open>push\<close> as the accounting fact
  \<open>avail + size * capacity\<close> constant, which is what makes the budget of C16
  enough.  No bound or fuel is needed: the loops of the program are modelled as
  structural recursion over their index lists, and the destructor's loop also as
  the \<open>Range<usize>\<close> iterator runs it, a \<open>partial_function (option)\<close> proved
  equal to the structural one; the tests' loops range over \<open>i32\<close> literals and
  are modelled by their index lists only.

  \<^bold>\<open>Not modelled.\<close> Concurrency (the type is single-threaded and the spec
  excludes it); the byte-level content of relocation, which the typed slots
  abstract; the allocation behaviour of the standard \<open>Vec\<close> of the third test
  (its elements and the order of their destructors are modelled, its buffer is
  not); the unwinding after a panic (a panic ends the run: the drops of
  the remaining elements and guards during unwinding are not modelled).

  \<^bold>\<open>Further work.\<close> The amortised bound of C15 is stated for the bump
  allocator only; stating it for every allocator meeting the contract needs a
  cost attached to each contract outcome.  The byte-level content of a
  relocation is abstracted by the typed slots.
\<close>

section \<open>Concrete element types, heaps and the tests\<close>

definition i32_ty :: elem_ty where
  "i32_ty = \<lparr>ty_size = 4, ty_align = 4\<rparr>"

text \<open>\<open>DropCounter(Rc<..>)\<close>: one pointer.\<close>

definition rc_ty :: elem_ty where
  "rc_ty = \<lparr>ty_size = 8, ty_align = 8\<rparr>"

definition zst_ty :: elem_ty where
  "zst_ty = \<lparr>ty_size = 0, ty_align = 1\<rparr>"

definition heap0 :: "nat \<Rightarrow> 'a heap" where
  "heap0 n = \<lparr>blocks = Map.empty, next_addr = 4096, avail = n, drop_log = []\<rparr>"

text \<open>\<open>test_push_and_length\<close>: the size of a new vector, then after pushing 1, 2, 3.\<close>

definition test_push_and_length :: "int heap \<Rightarrow> usize \<times> usize result" where
  "test_push_and_length h =
     (let v = new_v i32_ty in
      (size_v v,
       case push_all i32_ty [1, 2, 3] v h of
         Inl e \<Rightarrow> Inl e
       | Inr (v', _) \<Rightarrow> Inr (size_v v')))"

text \<open>\<open>test_grow\<close>: the size after pushing \<open>0..100\<close>.\<close>

definition test_grow :: "int heap \<Rightarrow> usize result" where
  "test_grow h =
     (case push_all i32_ty (map int [0..<100]) (new_v i32_ty) h of
        Inl e \<Rightarrow> Inl e
      | Inr (v, _) \<Rightarrow> Inr (size_v v))"

text \<open>
  The drop-counting scenario of spec section 8 run on \<open>Vector\<close>: ten tracked values
  pushed, the number of destructor runs read before and after the drop.
\<close>

definition drop_counter_scenario :: "nat heap \<Rightarrow> (nat \<times> nat) result" where
  "drop_counter_scenario h =
     (case push_all rc_ty [0..<10] (new_v rc_ty) h of
        Inl e \<Rightarrow> Inl e
      | Inr (v, h1) \<Rightarrow>
          (case drop_v rc_ty v h1 of
             Inl e \<Rightarrow> Inl e
           | Inr h2 \<Rightarrow> Inr (List.length (drop_log h1), List.length (drop_log h2))))"

section \<open>Shared facts on the concrete instances\<close>

text \<open>A client program: two vectors, interleaved pushes, one dropped, one grown.\<close>

definition client_prog :: "int client_op list" where
  "client_prog = [Op_new 0, Op_new 1, Op_push 0 1, Op_push 1 2, Op_push 0 3, Op_drop 1,
                  Op_push 0 4, Op_push 0 5, Op_push 0 6]"

text \<open>A client program that drops every vector it creates.\<close>

definition client_prog_closed :: "int client_op list" where
  "client_prog_closed = [Op_new 0, Op_new 1, Op_push 0 1, Op_push 1 2, Op_push 0 3, Op_push 0 4,
                         Op_push 0 5, Op_push 0 6, Op_drop 1, Op_push 0 7, Op_drop 0]"

text \<open>A full \<open>Vector<i32>\<close> of capacity 4 whose buffer is the last block allocated.\<close>

definition full4_vec :: vector where
  "full4_vec = \<lparr>ptr = 4096, capacity = 4, length_v = 4\<rparr>"

definition full4_heap :: "int heap" where
  "full4_heap = \<lparr>blocks = [4096 \<mapsto> \<lparr>blk_layout = \<lparr>lsize = 16, lalign = 4\<rparr>,
                                   blk_slots = [Init 1, Init 2, Init 3, Init 4]\<rparr>],
                 next_addr = 4112, avail = 984, drop_log = []\<rparr>"

lemmas eval_defs = heap_simps vec_simps i32_ty_def rc_ty_def zst_ty_def heap0_def

lemma i32_wf: "ty_wf i32_ty"
  by (simp add: ty_wf_def i32_ty_def)

lemma rc_wf: "ty_wf rc_ty"
  by (simp add: ty_wf_def rc_ty_def)

lemma heap0_wf: "heap_wf (heap0 n)"
  by (simp add: heap_wf_def heap0_def)

lemma i32_size_nz: "ty_size i32_ty \<noteq> 0"
  by (simp add: i32_ty_def)

lemma full4_inv: "vec_inv i32_ty full4_vec full4_heap"
  by (simp add: vec_inv_def block_ok_def full4_vec_def full4_heap_def eval_defs)

lemma three_pushes:
  "\<exists>v h. push_all i32_ty [1::int, 2, 3] (new_v i32_ty) (heap0 1000) = Inr (v, h)"
  by (simp add: eval_defs)

lemma three_pushes_valid:
  obtains v h where "push_all i32_ty [1::int, 2, 3] (new_v i32_ty) (heap0 1000) = Inr (v, h)"
    "vec_inv i32_ty v h" "heap_wf h" "contents v h = [1, 2, 3]" "drop_log h = []"
    "unat (length_v v) = 3"
proof -
  obtain v h where r: "push_all i32_ty [1::int, 2, 3] (new_v i32_ty) (heap0 1000) = Inr (v, h)"
    using three_pushes by blast
  have "ty_size i32_ty \<noteq> 0" by (simp add: i32_ty_def)
  note ok = push_all_ok [OF i32_wf this new_v_inv heap0_wf r]
  have "contents v h = [1, 2, 3]" using ok by simp
  moreover have "drop_log h = []" using ok by (simp add: heap0_def)
  moreover have "unat (length_v v) = 3" using ok by (simp add: new_v_def)
  ultimately show thesis using that r ok by blast
qed

section \<open>Properties of push, size, grow\<close>

text \<open>
  C1. Pushing onto a valid vector keeps the representation invariant and the
  heap's well-formedness, appends the pushed value to the live elements, and
  increases \<open>size\<close> by one.
\<close>

theorem push_appends:
  assumes "ty_wf t" "ty_size t \<noteq> 0" "vec_inv t v h" "heap_wf h"
    "Vector.push t x v h = Inr (v', h')"
  shows "vec_inv t v' h' \<and> heap_wf h' \<and> contents v' h' = contents v h @ [x]
         \<and> unat (size_v v') = unat (size_v v) + 1"
  using push_ok [OF assms] by (simp add: size_v_def)

theorem push_appends_witness:
  "\<exists>v' h'. Vector.push i32_ty (7::int) (new_v i32_ty) (heap0 1000) = Inr (v', h')
           \<and> contents v' h' = [7] \<and> vec_inv i32_ty v' h'"
proof -
  obtain v' h' where r: "Vector.push i32_ty (7::int) (new_v i32_ty) (heap0 1000) = Inr (v', h')"
    by (simp add: eval_defs)
  have "ty_size i32_ty \<noteq> 0" by (simp add: i32_ty_def)
  note c = push_appends [OF i32_wf this new_v_inv heap0_wf r]
  then show ?thesis using r by auto
qed

text \<open>
  C2. A push on a valid vector fails only when the vector is full, and then only in
  two ways: the panic of \<open>Layout::array(..).unwrap()\<close> when the new capacity does
  not fit \<open>isize::MAX\<close> bytes, or the abort of \<open>handle_alloc_error\<close> when the
  allocator has fewer bytes than the new layout asks for.  In particular a push
  never has undefined behaviour and never overflows an integer.
\<close>

theorem push_error_cases:
  assumes wf: "ty_wf t" "ty_size t \<noteq> 0" and inv: "vec_inv t v h" and hw: "heap_wf h"
    and p: "Vector.push t x v h = Inl e"
  shows "length_v v = capacity v \<and>
         (case layout_array t (if capacity v = 0 then 4 else capacity v * 2) of
            None \<Rightarrow> e = Panic LayoutErr
          | Some L \<Rightarrow> avail h < unat (lsize L) \<and> e = AllocAbort (lsize L))"
proof -
  from push_error [OF wf inv hw p] have full: "length_v v = capacity v"
    and g: "grow t v h = Inl e" by simp_all
  from grow_cases [OF wf inv hw] g show ?thesis
    using full by (auto split: option.splits if_splits)
qed

theorem push_error_cases_witness:
  "Vector.push i32_ty (7::int) (new_v i32_ty) (heap0 0) = Inl (AllocAbort 16)
   \<and> length_v (new_v i32_ty) = capacity (new_v i32_ty)
   \<and> (case layout_array i32_ty (if capacity (new_v i32_ty) = 0 then 4 else capacity (new_v i32_ty) * 2) of
        None \<Rightarrow> AllocAbort 16 = Panic LayoutErr
      | Some L \<Rightarrow> avail (heap0 0 :: int heap) < unat (lsize L) \<and> AllocAbort 16 = AllocAbort (lsize L))"
proof -
  have p: "Vector.push i32_ty (7::int) (new_v i32_ty) (heap0 0) = Inl (AllocAbort 16)"
    by (simp add: eval_defs)
  have "ty_size i32_ty \<noteq> 0" by (simp add: i32_ty_def)
  note c = push_error_cases [OF i32_wf this new_v_inv heap0_wf p]
  show ?thesis by (rule conjI [OF p c])
qed

text \<open>
  C3. A push on a valid vector returns normally whenever a slot is free, or the
  vector is full, the new capacity's layout exists and the allocator has its bytes.
\<close>

theorem push_progress:
  assumes wf: "ty_wf t" "ty_size t \<noteq> 0" and inv: "vec_inv t v h" and hw: "heap_wf h"
    and room: "length_v v < capacity v \<or>
      (\<exists>L. layout_array t (if capacity v = 0 then 4 else capacity v * 2) = Some L
           \<and> unat (lsize L) \<le> avail h)"
  shows "\<exists>v' h'. Vector.push t x v h = Inr (v', h')"
  using push_succeeds [OF wf inv hw room] .

theorem push_progress_witness:
  "\<exists>v' h'. Vector.push i32_ty (7::int) (new_v i32_ty) (heap0 16) = Inr (v', h')"
proof -
  have nz: "ty_size i32_ty \<noteq> 0" by (simp add: i32_ty_def)
  have room: "length_v (new_v i32_ty) < capacity (new_v i32_ty) \<or>
      (\<exists>L. layout_array i32_ty (if capacity (new_v i32_ty) = 0 then 4 else capacity (new_v i32_ty) * 2) = Some L
           \<and> unat (lsize L) \<le> avail (heap0 16 :: int heap))"
    by (simp add: eval_defs)
  show ?thesis
    using push_progress [OF i32_wf nz new_v_inv heap0_wf room, of 7] .
qed

text \<open>
  C4. The capacity changes only when a push finds the vector full; it then becomes 4
  for an empty allocation and twice the old capacity otherwise, so it never
  decreases.
\<close>

theorem push_capacity_policy:
  assumes "ty_wf t" "ty_size t \<noteq> 0" "vec_inv t v h" "heap_wf h"
    "Vector.push t x v h = Inr (v', h')"
  shows "unat (capacity v') = (if length_v v \<noteq> capacity v then unat (capacity v)
                              else if capacity v = 0 then 4 else 2 * unat (capacity v))
         \<and> capacity v \<le> capacity v'"
  using push_ok [OF assms] by (auto simp: word_le_nat_alt)

theorem push_capacity_policy_witness:
  "\<exists>v' h'. Vector.push i32_ty (7::int) (new_v i32_ty) (heap0 1000) = Inr (v', h')
           \<and> unat (capacity v') = 4"
proof -
  obtain v' h' where r: "Vector.push i32_ty (7::int) (new_v i32_ty) (heap0 1000) = Inr (v', h')"
    by (simp add: eval_defs)
  have "ty_size i32_ty \<noteq> 0" by (simp add: i32_ty_def)
  note c = push_capacity_policy [OF i32_wf this new_v_inv heap0_wf r]
  then show ?thesis using r by (auto simp: new_v_def)
qed

text \<open>
  C5. \<open>grow\<close> on a valid vector relocates it: the invariant holds at the new
  address, which was free before; the live elements and the length are unchanged;
  the capacity becomes 4 or twice the old one; the old region is released and no
  other block of the heap changes.
\<close>

theorem grow_relocates:
  assumes "ty_wf t" "ty_size t \<noteq> 0" "vec_inv t v h" "heap_wf h" "grow t v h = Inr (v', h')"
  shows "vec_inv t v' h' \<and> contents v' h' = contents v h \<and> length_v v' = length_v v
         \<and> unat (capacity v') = (if capacity v = 0 then 4 else 2 * unat (capacity v))
         \<and> blocks h (ptr v') = None \<and> (capacity v \<noteq> 0 \<longrightarrow> blocks h' (ptr v) = None)
         \<and> (\<forall>q. q \<noteq> ptr v \<and> q \<noteq> ptr v' \<longrightarrow> blocks h' q = blocks h q)"
proof -
  note g = grow_ok [OF assms]
  have "ptr v \<noteq> ptr v'" if nz: "capacity v \<noteq> 0"
  proof -
    obtain b L where "blocks h (ptr v) = Some b" "block_ok t v b"
      using assms(3) nz by (rule vec_inv_block)
    with g show ?thesis by auto
  qed
  with g show ?thesis by auto
qed

theorem grow_relocates_witness:
  "\<exists>v' h'. grow i32_ty (new_v i32_ty) (heap0 1000 :: int heap) = Inr (v', h')
           \<and> unat (capacity v') = 4 \<and> contents v' h' = []"
proof -
  obtain v' h' where r: "grow i32_ty (new_v i32_ty) (heap0 1000 :: int heap) = Inr (v', h')"
    by (simp add: eval_defs)
  have "ty_size i32_ty \<noteq> 0" by (simp add: i32_ty_def)
  note c = grow_relocates [OF i32_wf this new_v_inv heap0_wf r]
  then show ?thesis using r by (simp add: new_v_def contents_def)
qed

section \<open>Properties of the destructor\<close>

text \<open>
  C6. Dropping a valid vector has no undefined behaviour and releases exactly its
  region: the heap is unchanged for a vector that never allocated, and otherwise
  loses the vector's block and gets its \<open>capacity * size_of T\<close> bytes back.
\<close>

theorem drop_releases_region:
  assumes "ty_wf t" "ty_size t \<noteq> 0" "vec_inv t v h"
  shows "drop_v t v h = Inr (if capacity v = 0 then h
           else h\<lparr>blocks := (blocks h)(ptr v := None),
                  avail := avail h + unat (ty_size t) * unat (capacity v)\<rparr>)"
  using drop_v_ok [OF assms] .

theorem drop_releases_region_witness:
  "\<exists>v h. push_all i32_ty [1::int, 2, 3] (new_v i32_ty) (heap0 1000) = Inr (v, h)
         \<and> drop_v i32_ty v h = Inr (h\<lparr>blocks := (blocks h)(ptr v := None), avail := avail h + 16\<rparr>)"
proof -
  obtain v h where r: "push_all i32_ty [1::int, 2, 3] (new_v i32_ty) (heap0 1000) = Inr (v, h)"
      and inv: "vec_inv i32_ty v h"
    using three_pushes_valid by blast
  have "ty_size i32_ty \<noteq> 0" by (simp add: i32_ty_def)
  note d = drop_releases_region [OF i32_wf this inv]
  from r have "capacity v = 4" by (auto simp: eval_defs)
  with d r show ?thesis by (auto simp: i32_ty_def)
qed

text \<open>
  C7. The destructor as written runs no destructor of \<open>T\<close>: whatever the vector
  holds, the log of element destructors is the same after the drop as before.
  Every live element is leaked (finding: \<open>drop_in_place\<close> is called on
  \<open>*mut MaybeUninit<T>\<close>).
\<close>

theorem drop_runs_no_destructor:
  assumes "drop_v t v h = Inr h'"
  shows "drop_log h' = drop_log h"
  using drop_v_log [OF assms] .

theorem drop_runs_no_destructor_witness:
  "\<exists>v h h'. push_all i32_ty [1::int, 2, 3] (new_v i32_ty) (heap0 1000) = Inr (v, h)
            \<and> contents v h = [1, 2, 3] \<and> drop_v i32_ty v h = Inr h' \<and> drop_log h' = []"
proof -
  obtain v h where r: "push_all i32_ty [1::int, 2, 3] (new_v i32_ty) (heap0 1000) = Inr (v, h)"
      and inv: "vec_inv i32_ty v h" and c: "contents v h = [1, 2, 3]" and l: "drop_log h = []"
    using three_pushes_valid by blast
  have "ty_size i32_ty \<noteq> 0" by (simp add: i32_ty_def)
  then obtain h' where d: "drop_v i32_ty v h = Inr h'"
    using drop_v_ok [OF i32_wf _ inv] by blast
  from drop_runs_no_destructor [OF d] l r c d show ?thesis by auto
qed

text \<open>
  C8. On a valid vector with live elements, the destructor as written and the
  destructor of spec section 4.1 both return normally, but only the latter runs
  the elements' destructors, once each and in index order: their logs differ.
\<close>

theorem drop_diverges_from_spec:
  assumes wf: "ty_wf t" "ty_size t \<noteq> 0" and inv: "vec_inv t v h" and ne: "contents v h \<noteq> []"
  shows "\<exists>h1 h2. drop_v t v h = Inr h1 \<and> destroy_spec t v h = Inr h2
           \<and> drop_log h1 = drop_log h \<and> drop_log h2 = drop_log h @ contents v h
           \<and> drop_log h1 \<noteq> drop_log h2"
proof -
  obtain h1 where d: "drop_v t v h = Inr h1"
    using drop_v_ok [OF wf inv] by blast
  obtain h2 where s: "destroy_spec t v h = Inr h2" and l2: "drop_log h2 = drop_log h @ contents v h"
    using destroy_spec_ok [OF wf inv] by blast
  show ?thesis
    using d s l2 drop_v_log [OF d] ne by auto
qed

theorem drop_diverges_from_spec_witness:
  "\<exists>v h h1 h2. push_all i32_ty [1::int, 2, 3] (new_v i32_ty) (heap0 1000) = Inr (v, h)
     \<and> drop_v i32_ty v h = Inr h1 \<and> destroy_spec i32_ty v h = Inr h2
     \<and> drop_log h1 = [] \<and> drop_log h2 = [1, 2, 3]"
proof -
  obtain v h where r: "push_all i32_ty [1::int, 2, 3] (new_v i32_ty) (heap0 1000) = Inr (v, h)"
      and inv: "vec_inv i32_ty v h" and c: "contents v h = [1, 2, 3]" and l: "drop_log h = []"
    using three_pushes_valid by blast
  have "ty_size i32_ty \<noteq> 0" by (simp add: i32_ty_def)
  note dv = drop_diverges_from_spec [OF i32_wf this inv]
  with r c l show ?thesis by auto
qed

section \<open>Zero-sized element types\<close>

text \<open>
  C9. For a zero-sized \<open>T\<close>, the first push on a new vector calls \<open>alloc\<close> with
  the zero-size layout of \<open>Layout::array(4)\<close>, which is undefined behaviour
  (finding: spec section 4.1 asks for a dangling sentinel instead).
\<close>

theorem zst_push_undefined:
  assumes "ty_size t = 0"
  shows "Vector.push t x (new_v t) h = Inl (UB ZeroSizeAlloc)"
  using assms by (simp add: push_def grow_def new_v_def layout_array_def alloc_def)

theorem zst_push_undefined_witness:
  "Vector.push zst_ty () (new_v zst_ty) (heap0 1000) = Inl (UB ZeroSizeAlloc)"
  using zst_push_undefined [of zst_ty] by (simp add: zst_ty_def)

section \<open>Bounds on sizes\<close>

text \<open>
  C10. On a valid vector of a non-zero-sized \<open>T\<close>, \<open>grow\<close> panics in
  \<open>Layout::array(..).unwrap()\<close> exactly when the new capacity times
  \<open>size_of T\<close> exceeds \<open>isize::MAX\<close> rounded down to the alignment; below that
  bound the layout's byte size is the product, without wrap-around.
\<close>

theorem grow_layout_panic:
  assumes wf: "ty_wf t" "ty_size t \<noteq> 0" and inv: "vec_inv t v h" and hw: "heap_wf h"
  shows "(grow t v h = Inl (Panic LayoutErr) \<longleftrightarrow>
            2 ^ 63 - unat (ty_align t) < unat (ty_size t) * unat (if capacity v = 0 then 4 else capacity v * 2))
         \<and> (\<forall>L. layout_array t (if capacity v = 0 then 4 else capacity v * 2) = Some L \<longrightarrow>
               unat (lsize L) = unat (ty_size t) * unat (if capacity v = 0 then 4 else capacity v * 2))"
proof -
  let ?n = "if capacity v = 0 then 4 else capacity v * 2"
  note fits = layout_array_fits_iff [OF wf, of ?n]
  have "grow t v h = Inl (Panic LayoutErr) \<longleftrightarrow> layout_array t ?n = None"
    using grow_cases [OF wf inv hw] by (auto split: option.splits if_splits)
  with fits show ?thesis
    by (auto simp: not_le)
qed

theorem grow_layout_panic_witness:
  "grow \<lparr>ty_size = 2 ^ 62, ty_align = 1\<rparr> (new_v \<lparr>ty_size = 2 ^ 62, ty_align = 1\<rparr>) (heap0 0 :: int heap)
     = Inl (Panic LayoutErr)"
proof -
  let ?t = "\<lparr>ty_size = 2 ^ 62, ty_align = 1\<rparr> :: elem_ty"
  have wf: "ty_wf ?t" by (simp add: ty_wf_def)
  have nz: "ty_size ?t \<noteq> 0" by simp
  note g = grow_layout_panic [OF wf nz new_v_inv [of ?t "heap0 0 :: int heap"] heap0_wf]
  then show ?thesis by (simp add: new_v_def)
qed

text \<open>
  C11. The outcome of \<open>grow\<close> on a valid vector of a non-zero-sized \<open>T\<close>, in every
  case: the panic of \<open>Layout::array(..).unwrap()\<close> when the new capacity (4, or
  twice the old one, computed without overflow) does not fit \<open>isize::MAX\<close> bytes;
  the abort of \<open>handle_alloc_error\<close> when the allocator has fewer bytes than the
  new layout; and otherwise the vector at the bump address with the new capacity.
  No other error (overflow, undefined behaviour) is possible.
\<close>

theorem grow_outcomes:
  assumes wf: "ty_wf t" "ty_size t \<noteq> 0" and inv: "vec_inv t v h" and hw: "heap_wf h"
  shows "case layout_array t (if capacity v = 0 then 4 else capacity v * 2) of
           None \<Rightarrow> grow t v h = Inl (Panic LayoutErr)
         | Some L \<Rightarrow> (if avail h < unat (lsize L) then grow t v h = Inl (AllocAbort (lsize L))
                     else \<exists>h'. grow t v h = Inr (v\<lparr>ptr := next_addr h,
                                capacity := (if capacity v = 0 then 4 else capacity v * 2)\<rparr>, h'))"
  using grow_cases [OF wf inv hw] .

theorem grow_outcomes_witness:
  "\<exists>h'. grow i32_ty full4_vec full4_heap = Inr (full4_vec\<lparr>ptr := 4112, capacity := 8\<rparr>, h')"
proof -
  have hw: "heap_wf full4_heap" by (simp add: heap_wf_def full4_heap_def)
  have L: "layout_array i32_ty 8 = Some \<lparr>lsize = 32, lalign = 4\<rparr>"
    by (simp add: eval_defs)
  note c = grow_outcomes [OF i32_wf i32_size_nz full4_inv hw]
  then show ?thesis using L by (simp add: full4_vec_def full4_heap_def)
qed

section \<open>Runs of pushes and reachable states\<close>

text \<open>
  C12. A run of pushes on a valid vector that returns normally appends the whole
  list, in order, to the live elements; \<open>size\<close> grows by the number of pushes,
  the capacity never shrinks, and the invariant holds at the end (spec P1, P3, P6).
\<close>

theorem push_all_appends:
  assumes "ty_wf t" "ty_size t \<noteq> 0" "vec_inv t v h" "heap_wf h" "push_all t xs v h = Inr (v', h')"
  shows "vec_inv t v' h' \<and> contents v' h' = contents v h @ xs
         \<and> unat (size_v v') = unat (size_v v) + List.length xs \<and> capacity v \<le> capacity v'"
  using push_all_ok [OF assms(1,2) assms(3-5)] by (simp add: size_v_def)

theorem push_all_appends_witness:
  "\<exists>v h. push_all i32_ty [1::int, 2, 3] (new_v i32_ty) (heap0 1000) = Inr (v, h)
         \<and> contents v h = [1, 2, 3] \<and> unat (size_v v) = 3"
proof -
  obtain v h where r: "push_all i32_ty [1::int, 2, 3] (new_v i32_ty) (heap0 1000) = Inr (v, h)"
    using three_pushes by blast
  have "ty_size i32_ty \<noteq> 0" by (simp add: i32_ty_def)
  note c = push_all_appends [OF i32_wf this new_v_inv heap0_wf r]
  with r show ?thesis by (auto simp: new_v_def size_v_def contents_def)
qed

text \<open>
  C13. Every vector reachable from \<open>Vector::new\<close> by pushes is valid, has
  capacity zero exactly when it is empty, and otherwise has a capacity that is at
  least its length and either the initial 4 or less than twice its length: the
  doubling policy never wastes half of the region or more beyond the first 4 slots.
\<close>

theorem reach_capacity_bound:
  assumes "ty_wf t" "ty_size t \<noteq> 0" "heap_wf h0" "reach t h0 v h"
  shows "vec_inv t v h \<and> (capacity v = 0 \<longleftrightarrow> length_v v = 0)
         \<and> unat (length_v v) \<le> unat (capacity v)
         \<and> (capacity v = 0 \<or> unat (capacity v) = 4 \<or> unat (capacity v) < 2 * unat (length_v v))"
proof -
  have r: "vec_inv t v h \<and> cap_shape (unat (capacity v)) (unat (length_v v))"
    using reach_inv [OF assms(1-3)] assms(4) by blast
  then show ?thesis
    by (auto simp: cap_shape_def unat_eq_zero)
qed

theorem reach_capacity_bound_witness:
  "\<exists>v h. Vector.push i32_ty (7::int) (new_v i32_ty) (heap0 1000) = Inr (v, h)
         \<and> vec_inv i32_ty v h \<and> capacity v \<noteq> 0 \<and> unat (length_v v) \<le> unat (capacity v)"
proof -
  obtain v h where p: "Vector.push i32_ty (7::int) (new_v i32_ty) (heap0 1000) = Inr (v, h)"
    by (simp add: eval_defs)
  have rc: "reach i32_ty (heap0 1000) v h"
    using reach.reach_push [OF reach.reach_new p] .
  have "ty_size i32_ty \<noteq> 0" by (simp add: i32_ty_def)
  note b = reach_capacity_bound [OF i32_wf this heap0_wf rc]
  from p have "length_v v \<noteq> 0" by (auto simp: eval_defs)
  with b p show ?thesis by blast
qed

section \<open>The repository's tests and the spec's scenario\<close>

text \<open>
  \<open>test_push_and_length\<close> passes: a new vector has size 0, and size 3 after
  pushing 1, 2 and 3.
\<close>

lemma test_push_and_length_passes:
  "test_push_and_length (heap0 1000) = (0, Inr 3)"
  by (simp add: test_push_and_length_def eval_defs)

text \<open>
  \<open>test_grow\<close> passes: after pushing \<open>0..100\<close> (growing from 4 through 8, 16,
  32, 64 to 128 slots) the size is 100.
\<close>

lemma test_grow_passes:
  "test_grow (heap0 100000) = Inr 100"
  by (simp add: test_grow_def eval_defs upt_rec)

text \<open>
  The drop-counting scenario of spec section 8, run on \<open>Vector\<close>: after ten
  tracked values are pushed and the vector is dropped, no destructor has run,
  where the spec expects ten (finding: the repository's own test runs it on the
  standard \<open>Vec\<close> and so passes).
\<close>

lemma drop_counter_scenario_leaks:
  "drop_counter_scenario (heap0 1000) = Inr (0, 0)"
  by (simp add: drop_counter_scenario_def eval_defs upt_rec)

section \<open>Two vectors on one heap\<close>

text \<open>
  C14. Regions are never aliased: when two valid vectors share a heap and their
  regions are distinct, a push on one of them leaves the other valid with the same
  live elements, and the regions stay distinct afterwards (the new region of a
  growing vector is always fresh).
\<close>

theorem push_preserves_other_vector:
  assumes wf: "ty_wf t" "ty_size t \<noteq> 0" and inv: "vec_inv t v h" and invw: "vec_inv t w h"
    and hw: "heap_wf h" and disj: "capacity v \<noteq> 0 \<Longrightarrow> capacity w \<noteq> 0 \<Longrightarrow> ptr v \<noteq> ptr w"
    and p: "Vector.push t x v h = Inr (v', h')"
  shows "vec_inv t w h' \<and> contents w h' = contents w h
         \<and> (capacity v' \<noteq> 0 \<longrightarrow> capacity w \<noteq> 0 \<longrightarrow> ptr v' \<noteq> ptr w)"
proof (cases "capacity w = 0")
  case True
  then show ?thesis using invw by (simp add: vec_inv_def contents_def)
next
  case False
  obtain b L where b: "blocks h (ptr w) = Some b" "block_ok t w b"
    using invw False by (rule vec_inv_block)
  note fr = push_frame [OF wf inv hw p]
  have ne: "ptr v' \<noteq> ptr w"
    using fr b(1) disj False by auto
  have all: "\<forall>q. q \<noteq> ptr v' \<longrightarrow> (capacity v = 0 \<or> q \<noteq> ptr v) \<longrightarrow> blocks h' q = blocks h q"
    using fr by auto
  have "capacity v = 0 \<or> ptr w \<noteq> ptr v"
    using disj False by auto
  then have "blocks h' (ptr w) = blocks h (ptr w)"
    using spec [OF all, of "ptr w"] ne by auto
  with ne show ?thesis
    using vec_inv_blocks_eq [of h' w h t] invw by simp
qed

theorem push_preserves_other_vector_witness:
  "\<exists>v1 h1 w h2 v' h'. Vector.push i32_ty (1::int) (new_v i32_ty) (heap0 1000) = Inr (v1, h1)
     \<and> Vector.push i32_ty 2 (new_v i32_ty) h1 = Inr (w, h2)
     \<and> Vector.push i32_ty 3 v1 h2 = Inr (v', h') \<and> contents w h' = [2]"
proof -
  have nz: "ty_size i32_ty \<noteq> 0" by (simp add: i32_ty_def)
  obtain v1 h1 w h2 v' h' where
      r1: "Vector.push i32_ty (1::int) (new_v i32_ty) (heap0 1000) = Inr (v1, h1)"
    and r2: "Vector.push i32_ty 2 (new_v i32_ty) h1 = Inr (w, h2)"
    and r3: "Vector.push i32_ty 3 v1 h2 = Inr (v', h')"
    by (simp add: eval_defs)
  note p1 = push_ok [OF i32_wf nz new_v_inv heap0_wf r1]
  then have inv1: "vec_inv i32_ty v1 h1" and hw1: "heap_wf h1" by simp_all
  note p2 = push_ok [OF i32_wf nz new_v_inv hw1 r2]
  then have invw: "vec_inv i32_ty w h2" and hw2: "heap_wf h2" and cw: "contents w h2 = [2]"
    by simp_all
  have "vec_inv i32_ty v1 h2 \<and> contents v1 h2 = contents v1 h1
        \<and> (capacity w \<noteq> 0 \<longrightarrow> capacity v1 \<noteq> 0 \<longrightarrow> ptr w \<noteq> ptr v1)"
    by (rule push_preserves_other_vector [OF i32_wf nz new_v_inv inv1 hw1 _ r2]) (simp add: new_v_def)
  then have inv12: "vec_inv i32_ty v1 h2" and d: "capacity v1 \<noteq> 0 \<Longrightarrow> capacity w \<noteq> 0 \<Longrightarrow> ptr v1 \<noteq> ptr w"
    by auto
  have "vec_inv i32_ty w h' \<and> contents w h' = contents w h2
        \<and> (capacity v' \<noteq> 0 \<longrightarrow> capacity w \<noteq> 0 \<longrightarrow> ptr v' \<noteq> ptr w)"
    by (rule push_preserves_other_vector [OF i32_wf nz inv12 invw hw2 d r3])
  with r1 r2 r3 cw show ?thesis by auto
qed

section \<open>Amortised cost\<close>

text \<open>
  C15. Growth by doubling is amortised constant time: over any run of pushes from
  \<open>Vector::new\<close> that returns, the slots relocated by \<open>realloc\<close> number at most
  the final capacity minus the initial 4, and at most twice the number of pushes.
\<close>

theorem push_run_amortized:
  assumes wf: "ty_wf t" "ty_size t \<noteq> 0" and hw: "heap_wf h"
    and r: "push_all t xs (new_v t) h = Inr (v', h')"
  shows "push_all_cost t xs (new_v t) h \<le> unat (capacity v') - 4
         \<and> push_all_cost t xs (new_v t) h \<le> 2 * List.length xs"
proof -
  have pot: "push_all_cost t xs (new_v t) h \<le> unat (capacity v') - 4"
    using push_all_cost_potential [OF wf new_v_inv hw _ r] by (simp add: new_v_def)
  have "reach t h v' h'"
    using reach_push_all [OF reach.reach_new r] .
  then have cs: "cap_shape (unat (capacity v')) (unat (length_v v'))"
    using reach_inv [OF wf hw] by blast
  have "unat (length_v v') = List.length xs"
    using push_all_ok [OF wf new_v_inv hw r] by (simp add: new_v_def)
  with pot cs show ?thesis
    by (auto simp: cap_shape_def)
qed

theorem push_run_amortized_witness:
  "\<exists>v h. push_all i32_ty [1::int, 2, 3, 4, 5] (new_v i32_ty) (heap0 1000) = Inr (v, h)
         \<and> push_all_cost i32_ty [1::int, 2, 3, 4, 5] (new_v i32_ty) (heap0 1000) \<le> 10"
proof -
  obtain v h where r: "push_all i32_ty [1::int, 2, 3, 4, 5] (new_v i32_ty) (heap0 1000) = Inr (v, h)"
    by (simp add: eval_defs)
  have "ty_size i32_ty \<noteq> 0" by (simp add: i32_ty_def)
  note c = push_run_amortized [OF i32_wf this heap0_wf r]
  with r show ?thesis by auto
qed

section \<open>Runs that succeed\<close>

text \<open>
  C16. A run of \<open>n\<close> pushes from \<open>Vector::new\<close> returns normally, holding exactly
  the pushed values in order, whenever the allocator has \<open>size_of T * max 4 (3n)\<close>
  bytes (the peak of a move from capacity \<open>c\<close> to \<open>2c\<close> is \<open>3c\<close> slots) and
  \<open>size_of T * max 4 (2n)\<close> fits \<open>isize::MAX\<close> rounded to the alignment (spec P3:
  appending 100 elements succeeds without corruption).
\<close>

theorem push_run_succeeds:
  assumes wf: "ty_wf t" "ty_size t \<noteq> 0" and hw: "heap_wf h"
    and mem: "unat (ty_size t) * max 4 (3 * List.length xs) \<le> avail h"
    and lay: "unat (ty_size t) * max 4 (2 * List.length xs) \<le> 2 ^ 63 - unat (ty_align t)"
  shows "\<exists>v' h'. push_all t xs (new_v t) h = Inr (v', h') \<and> contents v' h' = xs"
proof -
  have "\<exists>v' h'. push_all t xs (new_v t) h = Inr (v', h')"
    using push_all_succeeds [OF wf mem lay new_v_inv hw] by (simp add: new_v_def cap_shape_def)
  then obtain v' h' where r: "push_all t xs (new_v t) h = Inr (v', h')" by blast
  with push_all_ok [OF wf new_v_inv hw r] show ?thesis by auto
qed

theorem push_run_succeeds_witness:
  "\<exists>v' h'. push_all i32_ty (map int [0..<100]) (new_v i32_ty) (heap0 1200) = Inr (v', h')
           \<and> contents v' h' = map int [0..<100]"
proof -
  have nz: "ty_size i32_ty \<noteq> 0" by (simp add: i32_ty_def)
  have mem: "unat (ty_size i32_ty) * max 4 (3 * List.length (map int [0..<100])) \<le> avail (heap0 1200 :: int heap)"
    by (simp add: i32_ty_def heap0_def)
  have lay: "unat (ty_size i32_ty) * max 4 (2 * List.length (map int [0..<100])) \<le> 2 ^ 63 - unat (ty_align i32_ty)"
    by (simp add: i32_ty_def)
  show ?thesis using push_run_succeeds [OF i32_wf nz heap0_wf mem lay] .
qed

section \<open>The whole lifecycle\<close>

text \<open>
  C17. No region is ever leaked: for a vector built by \<open>Vector::new\<close> and any
  successful pushes, dropping it returns normally and leaves the allocator exactly
  as it was before the vector existed (the same live blocks and the same free
  bytes), every intermediate region having been released by \<open>realloc\<close> or the
  drop; the destructor log is also unchanged, so the elements themselves are the
  only thing lost.
\<close>

theorem lifecycle_releases_all_memory:
  assumes wf: "ty_wf t" "ty_size t \<noteq> 0" and hw0: "heap_wf h0" and r: "reach t h0 v h"
  shows "\<exists>h'. drop_v t v h = Inr h' \<and> blocks h' = blocks h0 \<and> avail h' = avail h0
              \<and> drop_log h' = drop_log h0"
proof -
  have "drop_log h = drop_log h0" using reach_inv [OF wf hw0 r] by simp
  with reach_drop_restores [OF wf hw0 r] show ?thesis by simp
qed

theorem lifecycle_releases_all_memory_witness:
  "\<exists>v h h'. push_all i32_ty [1::int, 2, 3, 4, 5] (new_v i32_ty) (heap0 1000) = Inr (v, h)
     \<and> drop_v i32_ty v h = Inr h' \<and> blocks h' = Map.empty \<and> avail h' = 1000 \<and> drop_log h' = []"
proof -
  obtain v h where p: "push_all i32_ty [1::int, 2, 3, 4, 5] (new_v i32_ty) (heap0 1000) = Inr (v, h)"
    by (simp add: eval_defs)
  have rc: "reach i32_ty (heap0 1000) v h"
    using reach_push_all [OF reach.reach_new p] .
  have "ty_size i32_ty \<noteq> 0" by (simp add: i32_ty_def)
  note l = lifecycle_releases_all_memory [OF i32_wf this heap0_wf rc]
  with p show ?thesis by (auto simp: heap0_def)
qed

section \<open>Client programs with several vectors\<close>

lemma client_prog_runs:
  obtains s where "sys_run i32_ty (sys0 (heap0 1000)) client_prog = Some s"
    "sys_steps i32_ty (sys0 (heap0 1000)) client_prog s"
proof -
  obtain s where "sys_run i32_ty (sys0 (heap0 1000)) client_prog = Some s"
    by (simp add: eval_defs client_prog_def sys0_def)
  then show ?thesis using that sys_steps_iff_run by blast
qed

lemma client_prog_abs: "abs_run client_prog Map.empty = Some [0 \<mapsto> [1, 3, 4, 5, 6]]"
  by (simp add: client_prog_def fun_upd_twist)

text \<open>
  C18. In every client program, whatever the interleaving of \<open>new\<close>, \<open>push\<close> and
  drop over any number of vectors, every live vector stays valid, no two live
  vectors share a region, the allocator's free bytes plus the bytes of the live
  buffers stay equal to the initial budget, and no destructor runs.
\<close>

theorem client_runs_keep_invariant:
  assumes wf: "ty_wf t" "ty_size t \<noteq> 0" and hw: "heap_wf h0"
    and r: "sys_steps t (sys0 h0) cs s"
  shows "sys_inv t s \<and> avail (mem s) + live_bytes t s = avail h0 \<and> drop_log (mem s) = drop_log h0"
  using sys_steps_ok [OF wf r sys0_inv [OF hw]] by simp

theorem client_runs_keep_invariant_witness:
  "\<exists>s. sys_run i32_ty (sys0 (heap0 1000)) client_prog = Some s
       \<and> sys_inv i32_ty s \<and> avail (mem s) + live_bytes i32_ty s = 1000"
proof -
  obtain s where r: "sys_run i32_ty (sys0 (heap0 1000)) client_prog = Some s"
      and st: "sys_steps i32_ty (sys0 (heap0 1000)) client_prog s"
    by (rule client_prog_runs)
  note c = client_runs_keep_invariant [OF i32_wf i32_size_nz heap0_wf st]
  with r show ?thesis by (auto simp: heap0_def)
qed

text \<open>
  C19. The vectors of a client program implement named lists: after any run, each
  live vector holds exactly the list the same calls build on lists (\<open>new\<close> binds
  the empty list, \<open>push\<close> appends, drop unbinds), and the run is one the list
  program allows (no call on an unbound or a rebound name).
\<close>

theorem client_runs_refine_lists:
  assumes wf: "ty_wf t" "ty_size t \<noteq> 0" and hw: "heap_wf h0"
    and r: "sys_steps t (sys0 h0) cs s"
  shows "abs_run cs Map.empty = Some (sys_abs s)"
  using sys_steps_ok [OF wf r sys0_inv [OF hw]] by simp

theorem client_runs_refine_lists_witness:
  "\<exists>s. sys_run i32_ty (sys0 (heap0 1000)) client_prog = Some s
       \<and> sys_abs s = [0 \<mapsto> [1, 3, 4, 5, 6]]"
proof -
  obtain s where r: "sys_run i32_ty (sys0 (heap0 1000)) client_prog = Some s"
      and st: "sys_steps i32_ty (sys0 (heap0 1000)) client_prog s"
    by (rule client_prog_runs)
  have "abs_run client_prog Map.empty = Some (sys_abs s)"
    using client_runs_refine_lists [OF i32_wf i32_size_nz heap0_wf st] .
  with r client_prog_abs show ?thesis by auto
qed

text \<open>
  C20. A call the list program allows is never stuck on undefined behaviour: after
  any run, \<open>new\<close> on an unbound name and drop on a bound one always return, and
  a push on a bound vector either returns or fails only when the vector is full,
  by a panic or an allocation abort.
\<close>

theorem client_call_progress:
  assumes wf: "ty_wf t" "ty_size t \<noteq> 0" and hw: "heap_wf h0"
    and r: "sys_steps t (sys0 h0) cs s" and a: "abs_step c (sys_abs s) \<noteq> None"
  shows "(\<exists>s'. sys_step t s c s') \<or>
         (\<exists>i x v e. c = Op_push i x \<and> vecs s i = Some v \<and> length_v v = capacity v
                   \<and> Vector.push t x v (mem s) = Inl e \<and> \<not> is_ub e)"
proof -
  have "sys_inv t s" using sys_steps_ok [OF wf r sys0_inv [OF hw]] by blast
  then show ?thesis using sys_progress [OF wf _ a] by blast
qed

theorem client_call_progress_witness:
  "\<exists>s. sys_run i32_ty (sys0 (heap0 1000)) client_prog = Some s
       \<and> ((\<exists>s'. sys_step i32_ty s (Op_push 0 7) s') \<or>
          (\<exists>i x v e. Op_push 0 (7::int) = Op_push i x \<and> vecs s i = Some v \<and> length_v v = capacity v
                    \<and> Vector.push i32_ty x v (mem s) = Inl e \<and> \<not> is_ub e))"
proof -
  obtain s where r: "sys_run i32_ty (sys0 (heap0 1000)) client_prog = Some s"
      and st: "sys_steps i32_ty (sys0 (heap0 1000)) client_prog s"
    by (rule client_prog_runs)
  have "abs_run client_prog Map.empty = Some (sys_abs s)"
    using sys_steps_ok [OF i32_wf i32_size_nz st sys0_inv [OF heap0_wf]] by simp
  then have "sys_abs s = [0 \<mapsto> [1, 3, 4, 5, 6]]" using client_prog_abs by simp
  then have "abs_step (Op_push 0 (7::int)) (sys_abs s) \<noteq> None" by simp
  note c = client_call_progress [OF i32_wf i32_size_nz heap0_wf st this]
  with r show ?thesis by blast
qed

text \<open>
  C22. The type invariant of every buffer: after any client run, each live vector
  with a non-zero capacity owns a live block whose \<open>Layout\<close> is well formed (a
  power-of-two alignment, size rounded up within \<open>isize::MAX\<close>), has the
  alignment of \<open>T\<close> and exactly \<open>size_of T * capacity\<close> bytes, and holds
  \<open>capacity\<close> slots; so every \<open>realloc\<close> and \<open>dealloc\<close> the vector later makes
  passes the layout the block was allocated with.
\<close>

theorem client_layouts_wf:
  assumes wf: "ty_wf t" "ty_size t \<noteq> 0" and hw: "heap_wf h0"
    and r: "sys_steps t (sys0 h0) cs s" and v: "vecs s i = Some v" and c: "capacity v \<noteq> 0"
  shows "\<exists>b. blocks (mem s) (ptr v) = Some b \<and> layout_wf (blk_layout b)
           \<and> lalign (blk_layout b) = ty_align t
           \<and> unat (lsize (blk_layout b)) = unat (ty_size t) * unat (capacity v)
           \<and> List.length (blk_slots b) = unat (capacity v)"
proof -
  have "sys_inv t s" using sys_steps_ok [OF wf r sys0_inv [OF hw]] by blast
  then have "vec_inv t v (mem s)" using sys_invD(3) v by blast
  then obtain b L where b: "blocks (mem s) (ptr v) = Some b" "block_ok t v b"
      and L: "layout_array t (capacity v) = Some L" "blk_layout b = L"
    using c by (rule vec_inv_block)
  show ?thesis
    using b L layout_array_wf [OF wf(1) L(1)] layout_array_size [OF wf(1) L(1)]
    by (auto simp: block_ok_def)
qed

theorem client_layouts_wf_witness:
  "\<exists>s v b. sys_run i32_ty (sys0 (heap0 1000)) client_prog = Some s \<and> vecs s 0 = Some v
      \<and> blocks (mem s) (ptr v) = Some b \<and> layout_wf (blk_layout b)
      \<and> unat (lsize (blk_layout b)) = 4 * unat (capacity v)"
proof -
  obtain s where r: "sys_run i32_ty (sys0 (heap0 1000)) client_prog = Some s"
      and st: "sys_steps i32_ty (sys0 (heap0 1000)) client_prog s"
    by (rule client_prog_runs)
  have "abs_run client_prog Map.empty = Some (sys_abs s)"
    using sys_steps_ok [OF i32_wf i32_size_nz st sys0_inv [OF heap0_wf]] by simp
  then have a: "sys_abs s = [0 \<mapsto> [1, 3, 4, 5, 6]]" using client_prog_abs by simp
  then obtain v where v: "vecs s 0 = Some v" "contents v (mem s) = [1, 3, 4, 5, 6]"
    by (auto simp: sys_abs_def fun_eq_iff split: if_splits dest!: spec [of _ 0])
  have c: "capacity v \<noteq> 0" using v(2) by (auto simp: contents_def)
  note lw = client_layouts_wf [OF i32_wf i32_size_nz heap0_wf st v(1) c]
  with r v(1) show ?thesis by (auto simp: i32_ty_def)
qed

text \<open>
  C25. Vectors touch no memory they do not own, and leak none: after any client
  run, every block of the heap that no live vector points to is exactly as it was
  before the run, and once every vector has been dropped the allocator's blocks and
  free bytes are exactly those it started with.
\<close>

theorem client_no_leak:
  assumes wf: "ty_wf t" "ty_size t \<noteq> 0" and hw: "heap_wf h0"
    and r: "sys_steps t (sys0 h0) cs s"
  shows "(\<forall>q. \<not> owned s q \<longrightarrow> blocks (mem s) q = blocks h0 q)
         \<and> (vecs s = Map.empty \<longrightarrow> blocks (mem s) = blocks h0 \<and> avail (mem s) = avail h0)"
proof -
  have fr: "sys_frame h0 s"
    using sys_steps_frame [OF wf r sys0_inv [OF hw] sys0_frame] .
  have acc: "avail (mem s) + live_bytes t s = avail h0"
    using sys_steps_ok [OF wf r sys0_inv [OF hw]] by simp
  have "blocks (mem s) = blocks h0 \<and> avail (mem s) = avail h0" if e: "vecs s = Map.empty"
  proof -
    have "\<not> owned s q" for q using e by (simp add: owned_def)
    then have "blocks (mem s) = blocks h0" using fr by (auto simp: sys_frame_def)
    moreover have "live_bytes t s = 0" using e by (simp add: live_bytes_def)
    ultimately show ?thesis using acc by simp
  qed
  with fr show ?thesis by (simp add: sys_frame_def)
qed

lemma client_prog_closed_runs:
  obtains s where "sys_run i32_ty (sys0 (heap0 1000)) client_prog_closed = Some s"
    "sys_steps i32_ty (sys0 (heap0 1000)) client_prog_closed s"
proof -
  obtain s where "sys_run i32_ty (sys0 (heap0 1000)) client_prog_closed = Some s"
    by (simp add: eval_defs client_prog_closed_def sys0_def upt_rec)
  then show ?thesis using that sys_steps_iff_run by blast
qed

theorem client_no_leak_witness:
  "\<exists>s. sys_run i32_ty (sys0 (heap0 1000)) client_prog_closed = Some s
       \<and> blocks (mem s) = Map.empty \<and> avail (mem s) = 1000"
proof -
  obtain s where r: "sys_run i32_ty (sys0 (heap0 1000)) client_prog_closed = Some s"
      and st: "sys_steps i32_ty (sys0 (heap0 1000)) client_prog_closed s"
    by (rule client_prog_closed_runs)
  have "abs_run client_prog_closed Map.empty = Some (sys_abs s)"
    using sys_steps_ok [OF i32_wf i32_size_nz st sys0_inv [OF heap0_wf]] by simp
  moreover have "abs_run client_prog_closed (Map.empty :: nat \<rightharpoonup> int list) = Some Map.empty"
    by (simp add: client_prog_closed_def)
  ultimately have "sys_abs s = Map.empty" by simp
  then have "vecs s = Map.empty" by (auto simp: sys_abs_def fun_eq_iff)
  then show ?thesis
    using client_no_leak [OF i32_wf i32_size_nz heap0_wf st] r by (auto simp: heap0_def)
qed

section \<open>grow against the per-element reference\<close>

text \<open>
  C23. On every valid vector, \<open>grow\<close> with its single \<open>realloc\<close> is equal to the
  reference growth of spec section 4.1, a fresh allocation for the new capacity,
  a copy of the \<open>length\<close> live elements and the release of the old region: the
  same outcome in every case, errors included, the same resulting vector and the
  same heap, live blocks, free bytes and next address alike.
\<close>

theorem grow_equals_reference:
  assumes wf: "ty_wf t" "ty_size t \<noteq> 0" and inv: "vec_inv t v h" and hw: "heap_wf h"
  shows "grow t v h = grow_ref t v h"
proof (cases "capacity v = 0")
  case True
  then show ?thesis
    by (simp add: grow_def grow_ref_def split: option.splits sum.splits prod.splits)
next
  case False
  obtain L where L: "layout_array t (capacity v) = Some L"
    using inv False by (metis vec_inv_block)
  show ?thesis
  proof (cases "checked_mul (capacity v) 2")
    case None
    then show ?thesis using False by (simp add: grow_def grow_ref_def)
  next
    case (Some nc)
    show ?thesis
    proof (cases "layout_array t nc")
      case None
      then show ?thesis using False Some by (simp add: grow_def grow_ref_def)
    next
      case (Some NL)
      note r = realloc_grow_step [OF wf inv hw False \<open>checked_mul (capacity v) 2 = Some nc\<close> Some L]
      show ?thesis
        using False \<open>checked_mul (capacity v) 2 = Some nc\<close> Some L
        by (simp add: grow_def grow_ref_def r split: sum.split prod.split)
    qed
  qed
qed

theorem grow_equals_reference_witness:
  "\<exists>v h. push_all i32_ty [1::int, 2, 3, 4] (new_v i32_ty) (heap0 1000) = Inr (v, h)
     \<and> grow i32_ty v h = grow_ref i32_ty v h"
proof -
  obtain v h where p: "push_all i32_ty [1::int, 2, 3, 4] (new_v i32_ty) (heap0 1000) = Inr (v, h)"
    by (simp add: eval_defs)
  have "vec_inv i32_ty v h \<and> heap_wf h"
    using push_all_ok [OF i32_wf i32_size_nz new_v_inv heap0_wf p] by blast
  then have "grow i32_ty v h = grow_ref i32_ty v h"
    using grow_equals_reference [OF i32_wf i32_size_nz] by blast
  with p show ?thesis by blast
qed

section \<open>Debug and release builds\<close>

text \<open>
  C24. The build profile does not matter: on every valid vector of a non-zero-sized
  type, \<open>push\<close> compiled as a release build (\<open>capacity * 2\<close> and
  \<open>length += 1\<close> wrapping modulo \<open>2^64\<close>) computes exactly what the debug build
  (both checked, panicking on overflow) computes, because neither check can fire.
\<close>

theorem push_release_same:
  assumes wf: "ty_wf t" "ty_size t \<noteq> 0" and inv: "vec_inv t v h" and hw: "heap_wf h"
  shows "push_release t x v h = push t x v h"
proof (cases "if length_v v = capacity v then grow t v h else Inr (v, h)")
  case (Inl e)
  then show ?thesis
    using grow_release_eq [OF wf inv] by (simp add: push_def push_release_def split: if_splits)
next
  case (Inr r)
  obtain v1 h1 where g: "(if length_v v = capacity v then grow t v h else Inr (v, h)) = Inr (v1, h1)"
    using Inr by (cases r) auto
  have "length_v v1 < capacity v1"
    using push_grow_step [OF wf inv hw g] by blast
  then have "checked_add (length_v v1) 1 = Some (length_v v1 + 1)"
    using word_suc_no_wrap unsigned_less [of "length_v v1 + 1", where ?'a = nat]
    by (simp add: checked_add_def)
  then show ?thesis
    using g grow_release_eq [OF wf inv]
    by (simp add: push_def push_release_def split: sum.split if_splits)
qed

theorem push_release_same_witness:
  "\<exists>v h. push_all i32_ty [1::int, 2, 3, 4] (new_v i32_ty) (heap0 1000) = Inr (v, h)
     \<and> push_release i32_ty 5 v h = Vector.push i32_ty 5 v h"
proof -
  obtain v h where p: "push_all i32_ty [1::int, 2, 3, 4] (new_v i32_ty) (heap0 1000) = Inr (v, h)"
    by (simp add: eval_defs)
  have inv: "vec_inv i32_ty v h" and hw: "heap_wf h"
    using push_all_ok [OF i32_wf i32_size_nz new_v_inv heap0_wf p] by blast+
  have "push_release i32_ty 5 v h = Vector.push i32_ty 5 v h"
    using push_release_same [OF i32_wf i32_size_nz inv hw] .
  with p show ?thesis by blast
qed

section \<open>The allocator as an interface\<close>

text \<open>
  C26. \<open>push\<close> is correct for every allocator meeting the contract, not only for the
  bump allocator: whatever outcome of \<open>alloc\<close> or \<open>realloc\<close> the contract allows
  (in particular a \<open>realloc\<close> that resizes the buffer in place), a push that
  returns keeps the invariant, appends exactly the pushed value, increments
  \<open>length\<close> by one and runs no destructor.
\<close>

theorem push_correct_any_allocator:
  assumes wf: "ty_wf t" "ty_size t \<noteq> 0" and inv: "vec_inv t v h"
    and p: "push_spec t x v h (Inr (v', h'))"
  shows "vec_inv t v' h' \<and> contents v' h' = contents v h @ [x]
         \<and> unat (length_v v') = Suc (unat (length_v v)) \<and> drop_log h' = drop_log h"
proof (cases "length_v v = capacity v")
  case True
  then obtain g where g: "grow_spec t v h g" and pa: "push_after t x g = Inr (v', h')"
    using p by (auto simp: push_spec_def)
  obtain v1 h1 where g1: "g = Inr (v1, h1)"
    using pa by (cases g) (auto simp: push_after_def)
  note gr = grow_spec_ok [OF wf inv g [unfolded g1]]
  have "length_v v1 < capacity v1"
    using gr True by (auto simp: word_less_nat_alt unat_gt_0 split: if_splits)
  with gr show ?thesis
    using push_after_ok [OF wf _ _ pa [unfolded g1]] by auto
next
  case False
  then have "length_v v < capacity v" using inv by (simp add: vec_inv_def order_less_le)
  moreover have "push_after t x (Inr (v, h)) = Inr (v', h')" using p False by (simp add: push_spec_def)
  ultimately show ?thesis using push_after_ok [OF wf inv] by blast
qed

lemma full4_realloc_in_place:
  "realloc_in_place i32_ty full4_heap 4096 \<lparr>lsize = 16, lalign = 4\<rparr> 32 =
     Inr (4096, full4_heap\<lparr>blocks := [4096 \<mapsto> \<lparr>blk_layout = \<lparr>lsize = 32, lalign = 4\<rparr>,
            blk_slots = [Init 1, Init 2, Init 3, Init 4] @ replicate 4 Uninit\<rparr>],
          next_addr := 4128, avail := 968\<rparr>)"
  by (simp add: realloc_in_place_def full4_heap_def eval_defs)

theorem push_correct_any_allocator_witness:
  "\<exists>v' h'. push_spec i32_ty 5 full4_vec full4_heap (Inr (v', h')) \<and> ptr v' = 4096
      \<and> contents v' h' = [1, 2, 3, 4, 5]"
proof -
  let ?r = "(4096::nat, full4_heap\<lparr>blocks := [4096 \<mapsto> \<lparr>blk_layout = \<lparr>lsize = 32, lalign = 4\<rparr>,
            blk_slots = [Init 1, Init 2, Init 3, Init 4] @ replicate 4 Uninit\<rparr>],
          next_addr := 4128, avail := 968\<rparr>)"
  have hw: "heap_wf full4_heap" by (simp add: heap_wf_def full4_heap_def)
  have c: "realloc_pre full4_heap 4096 \<lparr>lsize = 16, lalign = 4\<rparr> 32
           \<and> realloc_ok i32_ty full4_heap 4096 \<lparr>lsize = 16, lalign = 4\<rparr> 32 ?r"
    using realloc_in_place_meets_contract [OF hw _ full4_realloc_in_place] by simp
  let ?g = "grow_finish full4_vec 8 \<lparr>lsize = 32, lalign = 4\<rparr> ?r"
  have gs: "grow_spec i32_ty full4_vec full4_heap ?g"
    using c unfolding grow_spec_def
    by (simp add: grow_req_def full4_vec_def eval_defs) blast
  obtain v' h' where pa: "push_after i32_ty 5 ?g = Inr (v', h')" and pv: "ptr v' = 4096"
    by (simp add: push_after_def grow_finish_def full4_vec_def full4_heap_def eval_defs)
  have ps: "push_spec i32_ty 5 full4_vec full4_heap (Inr (v', h'))"
    using gs pa unfolding push_spec_def by (auto simp: full4_vec_def)
  have "contents v' h' = contents full4_vec full4_heap @ [5]"
    using push_correct_any_allocator [OF i32_wf i32_size_nz full4_inv ps] by blast
  moreover have "contents full4_vec full4_heap = [1, 2, 3, 4]"
    by (simp add: contents_def full4_vec_def full4_heap_def)
  ultimately show ?thesis using ps pv by auto
qed

section \<open>The drop-safety test on the standard Vec\<close>

text \<open>
  The repository's third test passes: wherever \<open>Rc::new\<close> puts the counter,
  the counter reads 0 while the ten \<open>DropCounter\<close>s are alive and 10 after their
  \<open>Vec\<close> is dropped, and at the end of the test the counter's box is freed, so
  the test leaves the heap of \<open>Rc\<close> boxes as it found it.
\<close>

lemma test_drop_safety_passes:
  assumes fresh: "h p = None"
  shows "test_drop_safety p h = Inr ((0, 10), h)"
proof -
  let ?b0 = "\<lparr>strong = 1, weak = 1, borrow_flag = 0, rc_value = 0\<rparr>"
  let ?h2 = "h(p \<mapsto> ?b0\<lparr>strong := 11\<rparr>)"
  let ?h3 = "h(p \<mapsto> \<lparr>strong = 1, weak = 1, borrow_flag = 0, rc_value = 10\<rparr>)"
  have pc: "push_counters p 10 [] (rc_new p 0 h) = Inr (replicate 10 (DropCounter p), ?h2)"
    using push_counters_ok [of "rc_new p 0 h" p ?b0 10 "[]"] by (simp add: rc_new_def)
  have cr: "counter_read p ?h2 = Inr (0, ?h2)"
    using counter_read_ok [of ?h2 p "?b0\<lparr>strong := 11\<rparr>"] by simp
  have dc: "vec_drop_all drop_counter_drop (replicate 10 (DropCounter p)) ?h2 = Inr ?h3"
    using drop_counters_ok [of ?h2 p "?b0\<lparr>strong := 11\<rparr>" 10] by simp
  have "drop_scope p (rc_new p 0 h) = Inr (0, ?h3)"
    using pc cr dc by (simp add: drop_scope_def)
  moreover have "counter_read p ?h3 = Inr (10, ?h3)"
    using counter_read_ok [of ?h3 p] by simp
  moreover have "rc_release p ?h3 = Inr h"
    using rc_release_last [of ?h3 p] fresh by (simp add: fun_upd_idem)
  ultimately show ?thesis
    by (simp add: test_drop_safety_def)
qed

text \<open>
  C21. For any number \<open>n\<close> of \<open>DropCounter\<close>s cloned from one live counter that
  nobody has borrowed, pushed into a \<open>Vec\<close>, dropping the \<open>Vec\<close> runs every
  counter's destructor exactly once: the counter grows by exactly \<open>n\<close>, every
  clone's strong reference is returned and every borrow is given back, so the box is
  left as it was but for the count (provided the count does not overflow
  \<open>usize\<close>, where the increment panics).
\<close>

theorem drop_counters_balance:
  assumes live: "h p = Some b" "0 < strong b" "borrow_flag b = 0"
    and room: "unat (rc_value b) + n < 2 ^ 64"
  shows "(case push_counters p n [] h of
            Inl e \<Rightarrow> Inl e
          | Inr (xs, h1) \<Rightarrow> vec_drop_all drop_counter_drop xs h1)
         = Inr (h(p \<mapsto> b\<lparr>rc_value := rc_value b + of_nat n\<rparr>))"
proof -
  let ?b1 = "b\<lparr>strong := strong b + n\<rparr>"
  have "vec_drop_all drop_counter_drop (replicate n (DropCounter p)) (h(p \<mapsto> ?b1)) =
          Inr ((h(p \<mapsto> ?b1))(p \<mapsto> ?b1\<lparr>strong := strong ?b1 - n, rc_value := rc_value ?b1 + of_nat n\<rparr>))"
    using live room by (intro drop_counters_ok) auto
  then show ?thesis
    using push_counters_ok [of h p b n "[]", OF live(1)] by simp
qed

theorem drop_counters_balance_witness:
  "(case push_counters 7 25 [] [7 \<mapsto> \<lparr>strong = 1, weak = 1, borrow_flag = 0, rc_value = 0\<rparr>] of
      Inl e \<Rightarrow> Inl e
    | Inr (xs, h1) \<Rightarrow> vec_drop_all drop_counter_drop xs h1)
   = Inr [7 \<mapsto> \<lparr>strong = 1, weak = 1, borrow_flag = 0, rc_value = 25\<rparr>]"
  using drop_counters_balance [of "[7 \<mapsto> \<lparr>strong = 1, weak = 1, borrow_flag = 0, rc_value = 0\<rparr>]" 7
      "\<lparr>strong = 1, weak = 1, borrow_flag = 0, rc_value = 0\<rparr>" 25]
  by simp

text \<open>
  C27. The client-level theorems do not depend on the bump allocator: with each push
  taking any outcome that an allocator meeting the \<open>GlobalAlloc\<close> contract allows
  (a \<open>realloc\<close> that resizes in place or moves, any address, any failure), every
  run keeps each live vector valid and the live regions distinct, and implements
  the same named lists as the list program.  The runs of the bump model are among
  these runs.
\<close>

theorem client_any_allocator:
  assumes wf: "ty_wf t" "ty_size t \<noteq> 0"
    and r: "Client_Contract.sys_steps_c t (sys0 h0) cs s"
  shows "Client_Contract.sys_inv_c t s \<and> abs_run cs Map.empty = Some (sys_abs s)"
  using sys_steps_c_ok [OF wf r sys0_inv_c] by simp

theorem client_any_allocator_witness:
  "\<exists>s. sys_steps_c i32_ty (sys0 (heap0 1000)) client_prog s \<and> sys_inv_c i32_ty s
       \<and> sys_abs s = [0 \<mapsto> [1, 3, 4, 5, 6]]"
proof -
  obtain s where st: "sys_steps i32_ty (sys0 (heap0 1000)) client_prog s"
    by (rule client_prog_runs)
  have c: "sys_steps_c i32_ty (sys0 (heap0 1000)) client_prog s"
    using sys_steps_refines_c [OF i32_wf i32_size_nz st sys0_inv [OF heap0_wf]] .
  note a = client_any_allocator [OF i32_wf i32_size_nz c]
  with c client_prog_abs show ?thesis by auto
qed

end
